theory Spec2Isabelle
  imports Main "HOL-Library.Char_ord" "HOL-Library.List_Lexorder" "HOL-Library.AList"
begin

text \<open>
  A shallow embedding of \<^verbatim>\<open>controller.py\<close>, the \<^verbatim>\<open>ShardHandler\<close> class that
  splits a text into shard files, mirrors them in replication levels and looks
  up words by index. Every method of the class is a function on the handler and
  its files, with the names of the source; \<^verbatim>\<open>get_shard_data\<close>, which only
  reads one entry of the mapping, and the demonstration at the end of the
  module are left out. The definitions come first, the properties after them;
  the last sections state what holds of the claims C1 to C10.
\<close>

section \<open>Python values used by controller.py\<close>

text \<open>
  Python's unbounded integers are \<^typ>\<open>int\<close>, its strings are \<^typ>\<open>string\<close>
  (ASCII only), and every exception the source can raise is a value of
  \<open>py_error\<close>. \<open>Exception msg\<close> is the bare \<^verbatim>\<open>raise Exception(msg)\<close>
  of the source.
\<close>

datatype py_error =
    ZeroDivisionError
  | IndexError
  | KeyError
  | ValueError
  | TypeError
  | FileNotFoundError
  | Exception string

text \<open>\<^verbatim>\<open>len(data)\<close>.\<close>

definition len :: "'a list \<Rightarrow> int" where
  "len xs = int (length xs)"

text \<open>
  \<^verbatim>\<open>data[a:b]\<close>: a negative bound counts from the end, and both bounds are clamped
  to the string.
\<close>

definition clamp_index :: "'a list \<Rightarrow> int \<Rightarrow> nat" where
  "clamp_index xs i = (if i < 0 then nat (max (i + len xs) 0) else nat (min i (len xs)))"

definition py_slice :: "'a list \<Rightarrow> int \<Rightarrow> int \<Rightarrow> 'a list" where
  "py_slice xs a b = drop (clamp_index xs a) (take (clamp_index xs b) xs)"

text \<open>\<^verbatim>\<open>data[a:]\<close>.\<close>

definition py_slice_from :: "'a list \<Rightarrow> int \<Rightarrow> 'a list" where
  "py_slice_from xs a = drop (clamp_index xs a) xs"

text \<open>\<^verbatim>\<open>range(count)\<close>: empty when \<open>count \<le> 0\<close>.\<close>

definition py_range :: "int \<Rightarrow> int list" where
  "py_range n = map int [0..<nat n]"

section \<open>More of Python: indexing, strings, integers as text\<close>

text \<open>
  The sum type with \<open>Inl\<close> for the exception is the result of every expression that
  can raise; \<open>then_e\<close> passes an exception on.
\<close>

fun then_e :: "py_error + 'a \<Rightarrow> ('a \<Rightarrow> py_error + 'b) \<Rightarrow> py_error + 'b" where
  "then_e (Inl e) f = Inl e"
| "then_e (Inr v) f = f v"

text \<open>A list comprehension whose element expression can raise: the first exception wins.\<close>

fun try_map :: "('a \<Rightarrow> py_error + 'b) \<Rightarrow> 'a list \<Rightarrow> py_error + 'b list" where
  "try_map f [] = Inr []"
| "try_map f (x # xs) =
     (case f x of
        Inl e \<Rightarrow> Inl e
      | Inr y \<Rightarrow> (case try_map f xs of Inl e \<Rightarrow> Inl e | Inr ys \<Rightarrow> Inr (y # ys)))"

fun try_filter :: "('a \<Rightarrow> py_error + bool) \<Rightarrow> 'a list \<Rightarrow> py_error + 'a list" where
  "try_filter f [] = Inr []"
| "try_filter f (x # xs) =
     (case f x of
        Inl e \<Rightarrow> Inl e
      | Inr b \<Rightarrow>
          (case try_filter f xs of
             Inl e \<Rightarrow> Inl e
           | Inr ys \<Rightarrow> Inr (if b then x # ys else ys)))"

text \<open>\<^verbatim>\<open>xs[i]\<close>: a negative index counts from the end; out of range raises.\<close>

definition py_nth :: "'a list \<Rightarrow> int \<Rightarrow> py_error + 'a" where
  "py_nth xs i =
     (let j = (if i < 0 then i + len xs else i)
      in if 0 \<le> j \<and> j < len xs then Inr (xs ! nat j) else Inl IndexError)"

text \<open>\<^verbatim>\<open>max(xs)\<close> raises on an empty sequence.\<close>

fun py_max :: "int list \<Rightarrow> py_error + int" where
  "py_max [] = Inl ValueError"
| "py_max (x # xs) = Inr (fold max xs x)"

text \<open>\<^verbatim>\<open>enumerate(xs)\<close>.\<close>

definition py_enumerate :: "'a list \<Rightarrow> (int \<times> 'a) list" where
  "py_enumerate xs = zip (map int [0..<length xs]) xs"

text \<open>\<^verbatim>\<open>c in s\<close> for a one-character \<open>c\<close>.\<close>

definition py_in :: "char \<Rightarrow> string \<Rightarrow> bool" where
  "py_in c s = (c \<in> set s)"

text \<open>\<^verbatim>\<open>s.split(c)\<close> for a one-character separator: always at least one part.\<close>

fun split_on :: "char \<Rightarrow> string \<Rightarrow> string list" where
  "split_on c [] = [[]]"
| "split_on c (x # xs) =
     (if x = c then [] # split_on c xs
      else (case split_on c xs of [] \<Rightarrow> [[x]] | p # ps \<Rightarrow> (x # p) # ps))"

text \<open>\<^verbatim>\<open>s.strip(chars)\<close> and \<^verbatim>\<open>s.replace(c, '')\<close>.\<close>

definition py_strip :: "string \<Rightarrow> string \<Rightarrow> string" where
  "py_strip chars s =
     rev (dropWhile (\<lambda>c. c \<in> set chars) (rev (dropWhile (\<lambda>c. c \<in> set chars) s)))"

definition py_remove_char :: "char \<Rightarrow> string \<Rightarrow> string" where
  "py_remove_char c s = filter (\<lambda>x. x \<noteq> c) s"

text \<open>\<^verbatim>\<open>str(n)\<close> for an integer: decimal digits, a minus sign when negative.\<close>

definition digit_char :: "nat \<Rightarrow> char" where
  "digit_char d = ''0123456789'' ! d"

fun str_of_nat :: "nat \<Rightarrow> string" where
  "str_of_nat n =
     (if n < 10 then [digit_char n] else str_of_nat (n div 10) @ [digit_char (n mod 10)])"

declare str_of_nat.simps [simp del]

definition str_of_int :: "int \<Rightarrow> string" where
  "str_of_int i = (if i < 0 then CHR ''-'' # str_of_nat (nat (- i)) else str_of_nat (nat i))"

text \<open>
  \<^verbatim>\<open>int(s)\<close> for an ASCII string: whitespace around the literal is dropped, one
  sign is allowed, and the digits may be grouped by single underscores. Anything
  else raises \<^verbatim>\<open>ValueError\<close>. The whitespace that \<^verbatim>\<open>int\<close> drops from an ASCII
  string is the blank and the five characters from tab to carriage return; the
  separators \<open>0x1C\<close> to \<open>0x1F\<close>, which \<^verbatim>\<open>str.strip()\<close> would drop, are not part
  of it. Integers have no bound, so the limit that newer versions of Python put
  on the number of digits of a literal is taken to be switched off.
\<close>

definition is_digit :: "char \<Rightarrow> bool" where
  "is_digit c = (c \<in> set ''0123456789'')"

definition digit_val :: "char \<Rightarrow> nat" where
  "digit_val c = of_char c - 48"

definition is_space :: "char \<Rightarrow> bool" where
  "is_space c = (c \<in> set [CHR 0x09, CHR 0x0A, CHR 0x0B, CHR 0x0C, CHR 0x0D, CHR 0x20])"

definition strip_space :: "string \<Rightarrow> string" where
  "strip_space s = rev (dropWhile is_space (rev (dropWhile is_space s)))"

fun digits_ok :: "string \<Rightarrow> bool" where
  "digits_ok [] = False"
| "digits_ok [c] = is_digit c"
| "digits_ok (c # d # r) =
     (if is_digit c
      then (if d = CHR ''_'' then digits_ok r else digits_ok (d # r))
      else False)"

definition digits_value :: "string \<Rightarrow> nat" where
  "digits_value d = foldl (\<lambda>a c. 10 * a + digit_val c) 0 (filter (\<lambda>c. c \<noteq> CHR ''_'') d)"

definition parse_digits :: "string \<Rightarrow> py_error + int" where
  "parse_digits d = (if digits_ok d then Inr (int (digits_value d)) else Inl ValueError)"

definition py_int :: "string \<Rightarrow> py_error + int" where
  "py_int s =
     (case strip_space s of
        [] \<Rightarrow> Inl ValueError
      | c # d \<Rightarrow>
          if c = CHR ''-'' then then_e (parse_digits d) (\<lambda>v. Inr (- v))
          else if c = CHR ''+'' then parse_digits d
          else parse_digits (c # d))"

text \<open>
  \<^verbatim>\<open>level == filename.split('-')[1]\<close> in \<^verbatim>\<open>rep_level_has_same_keys\<close> compares
  an \<^verbatim>\<open>int\<close> with a \<^verbatim>\<open>str\<close>: in Python that is never equal.
\<close>

definition py_eq_int_str :: "int \<Rightarrow> string \<Rightarrow> bool" where
  "py_eq_int_str i s = False"

section \<open>The handler and its files\<close>

text \<open>
  One entry of the mapping: \<^verbatim>\<open>{'start': ..., 'end': ...}\<close>.
\<close>

record shard_meta =
  shard_start :: int
  shard_end :: int

text \<open>
  A \<^verbatim>\<open>ShardHandler\<close> together with the files it works on. A Python \<^verbatim>\<open>dict\<close>
  keeps its keys in insertion order, so \<open>mapping\<close> is an association list with
  distinct keys: assigning to a key that is present keeps its place, a new key
  goes to the end (\<^const>\<open>AList.update\<close>). \<open>mapfile\<close> is \<^verbatim>\<open>mapping.json\<close>
  (\<open>None\<close>: no such file). \<open>data_dir\<close> is the directory \<^verbatim>\<open>./data\<close>
  (\<open>None\<close>: no such directory): its entries with the characters stored in them,
  the entry created first coming first. \<open>dir_order\<close> belongs to the file system,
  not to the class: it is the order in which \<^verbatim>\<open>os.listdir\<close> returns the
  entries of a directory, a table from the entries as they are stored to the
  entries as they are listed. No method changes it.
\<close>

record shard_handler =
  mapping :: "(string \<times> shard_meta) list"
  last_char_position :: int
  replication_level :: int
  mapfile :: "(string \<times> shard_meta) list option"
  data_dir :: "(string \<times> string) list option"
  dir_order :: "(string list \<times> string list) list"

text \<open>
  A method either returns a value or raises; in both cases it leaves a handler
  behind, the one its assignments and file operations have produced so far.
\<close>

datatype 'a outcome = Return 'a shard_handler | Raise py_error shard_handler

fun and_then :: "'a outcome \<Rightarrow> ('a \<Rightarrow> shard_handler \<Rightarrow> 'b outcome) \<Rightarrow> 'b outcome" where
  "and_then (Return v s) f = f v s"
| "and_then (Raise e s) f = Raise e s"

fun lift :: "py_error + 'a \<Rightarrow> shard_handler \<Rightarrow> 'a outcome" where
  "lift (Inl e) s = Raise e s"
| "lift (Inr v) s = Return v s"

text \<open>A \<^verbatim>\<open>for\<close> loop whose body changes the handler and may raise.\<close>

fun for_each :: "'a list \<Rightarrow> ('a \<Rightarrow> shard_handler \<Rightarrow> unit outcome) \<Rightarrow> shard_handler
                  \<Rightarrow> unit outcome" where
  "for_each [] f s = Return () s"
| "for_each (x # xs) f s =
     (case f x s of Return u s' \<Rightarrow> for_each xs f s' | Raise e s' \<Rightarrow> Raise e s')"

subsection \<open>Files in \<^verbatim>\<open>./data\<close>\<close>

text \<open>
  \<^verbatim>\<open>os.listdir('./data')\<close>. Python returns the names in arbitrary order. Here
  the order is what the table \<open>dir_order\<close> of the handler gives for the names of
  the directory; an entry of the table that is not a rearrangement of these
  names is not used, and a directory that has no entry is listed as it is
  stored. The table may be any table, so a statement about every handler is a
  statement about every order in which a directory can be listed, also after
  files have been created or removed.
\<close>

definition listed :: "(string list \<times> string list) list \<Rightarrow> string list \<Rightarrow> string list" where
  "listed order names =
     (case map_of order names of
        None \<Rightarrow> names
      | Some l \<Rightarrow> if sort l = sort names then l else names)"

definition listdir :: "shard_handler \<Rightarrow> py_error + string list" where
  "listdir s =
     (case data_dir s of
        None \<Rightarrow> Inl FileNotFoundError
      | Some d \<Rightarrow> Inr (listed (dir_order s) (map fst d)))"

text \<open>The characters stored in a file, as \<^verbatim>\<open>shutil.copyfile\<close> takes them.\<close>

definition file_content :: "string \<Rightarrow> shard_handler \<Rightarrow> py_error + string" where
  "file_content name s =
     (case data_dir s of
        None \<Rightarrow> Inl FileNotFoundError
      | Some d \<Rightarrow> (case map_of d name of None \<Rightarrow> Inl FileNotFoundError | Some c \<Rightarrow> Inr c))"

text \<open>
  \<^verbatim>\<open>open(name, 'r').read()\<close>. A file opened in text mode is read with universal
  newlines: a carriage return followed by a line feed, and a carriage return
  alone, are read as one line feed.
\<close>

fun universal_newlines :: "string \<Rightarrow> string" where
  "universal_newlines [] = []"
| "universal_newlines [c] = [if c = CHR 0x0D then CHR 0x0A else c]"
| "universal_newlines (c # d # r) =
     (if c = CHR 0x0D
      then CHR 0x0A # (if d = CHR 0x0A then universal_newlines r else universal_newlines (d # r))
      else c # universal_newlines (d # r))"

definition read_file :: "string \<Rightarrow> shard_handler \<Rightarrow> py_error + string" where
  "read_file name s =
     (case file_content name s of Inl e \<Rightarrow> Inl e | Inr c \<Rightarrow> Inr (universal_newlines c))"

text \<open>
  \<^verbatim>\<open>open(name, 'w').write(content)\<close>: creates or overwrites the file. The
  characters are stored as they are given, which is what text mode does where
  the line separator of the system is the line feed.
\<close>

definition write_file :: "string \<Rightarrow> string \<Rightarrow> shard_handler \<Rightarrow> unit outcome" where
  "write_file name content s =
     (case data_dir s of
        None \<Rightarrow> Raise FileNotFoundError s
      | Some d \<Rightarrow> Return () (s\<lparr>data_dir := Some (AList.update name content d)\<rparr>))"

text \<open>
  \<^verbatim>\<open>shutil.copyfile(src, dst)\<close>. Every call of the source has a \<open>dst\<close> that
  differs from \<open>src\<close> (exactly one of the two names has a dash).
\<close>

definition copyfile :: "string \<Rightarrow> string \<Rightarrow> shard_handler \<Rightarrow> unit outcome" where
  "copyfile src dst s =
     (case file_content src s of Inl e \<Rightarrow> Raise e s | Inr c \<Rightarrow> write_file dst c s)"

text \<open>\<^verbatim>\<open>os.remove(name)\<close>.\<close>

definition remove_file :: "string \<Rightarrow> shard_handler \<Rightarrow> unit outcome" where
  "remove_file name s =
     (case data_dir s of
        None \<Rightarrow> Raise FileNotFoundError s
      | Some d \<Rightarrow>
          (case map_of d name of
             None \<Rightarrow> Raise FileNotFoundError s
           | Some c \<Rightarrow> Return () (s\<lparr>data_dir := Some (AList.delete name d)\<rparr>)))"

text \<open>
  The names the source builds with f-strings: \<^verbatim>\<open>f'{key}.txt'\<close> for the blob of
  a key and \<^verbatim>\<open>f'{primary_key}-{level}'\<close> for the key of a replica.
\<close>

definition blob :: "string \<Rightarrow> string" where
  "blob key = key @ ''.txt''"

definition replica_key :: "string \<Rightarrow> int \<Rightarrow> string" where
  "replica_key primary_key level = primary_key @ ''-'' @ str_of_int level"

subsection \<open>The mapping\<close>

definition write_map :: "shard_handler \<Rightarrow> shard_handler" where
  "write_map s = s\<lparr>mapfile := Some (mapping s)\<rparr>"

definition load_map :: "shard_handler \<Rightarrow> (string \<times> shard_meta) list" where
  "load_map s = (case mapfile s of None \<Rightarrow> [] | Some m \<Rightarrow> m)"

text \<open>\<^verbatim>\<open>get_all_shard_data()\<close>.\<close>

definition get_all_shard_data :: "shard_handler \<Rightarrow> (string \<times> shard_meta) list" where
  "get_all_shard_data s = mapping s"

definition reset_char_position :: "shard_handler \<Rightarrow> shard_handler" where
  "reset_char_position s = s\<lparr>last_char_position := 0\<rparr>"

text \<open>
  \<^verbatim>\<open>sorted\<close> of strings is the lexicographic order on characters, which is the
  order of \<^typ>\<open>string\<close> here: \<open>''10''\<close> comes before \<open>''2''\<close>.
\<close>

definition get_shard_ids :: "shard_handler \<Rightarrow> string list" where
  "get_shard_ids s = sort (filter (\<lambda>key. \<not> py_in CHR ''-'' key) (map fst (mapping s)))"

definition get_replication_ids :: "shard_handler \<Rightarrow> string list" where
  "get_replication_ids s = sort (filter (\<lambda>key. py_in CHR ''-'' key) (map fst (mapping s)))"

text \<open>
  \<^verbatim>\<open>s.split(c)[0]\<close> never raises, since a split has at least one part;
  \<^verbatim>\<open>int(key.split(c)[i])\<close> can raise twice.
\<close>

definition split_first :: "char \<Rightarrow> string \<Rightarrow> string" where
  "split_first c s = (case split_on c s of [] \<Rightarrow> [] | p # ps \<Rightarrow> p)"


definition int_part :: "char \<Rightarrow> int \<Rightarrow> string \<Rightarrow> py_error + int" where
  "int_part c i key = then_e (py_nth (split_on c key) i) py_int"

definition find_highest_replication_level :: "(string \<times> shard_meta) list \<Rightarrow> py_error + int" where
  "find_highest_replication_level m =
     then_e (try_map (int_part CHR ''-'' 1) (filter (\<lambda>key. py_in CHR ''-'' key) (map fst m)))
       (\<lambda>levels. case levels of [] \<Rightarrow> Inr 0 | l # ls \<Rightarrow> py_max (l # ls))"

text \<open>\<^verbatim>\<open>ShardHandler()\<close> over the files that are there.\<close>

definition init_handler ::
  "(string \<times> shard_meta) list option \<Rightarrow> (string \<times> string) list option
     \<Rightarrow> (string list \<times> string list) list \<Rightarrow> py_error + shard_handler" where
  "init_handler mf dd order =
     (let m = (case mf of None \<Rightarrow> [] | Some m \<Rightarrow> m)
      in then_e (find_highest_replication_level m)
           (\<lambda>l. Inr \<lparr>mapping = m, last_char_position = 0, replication_level = l,
                      mapfile = mf, data_dir = dd, dir_order = order\<rparr>))"

section \<open>The shard splitter\<close>

text \<open>
  \<^verbatim>\<open>_generate_sharded_data(count, data)\<close>. \<^verbatim>\<open>divmod\<close> raises on a zero
  divisor and is floor division otherwise, as \<open>div\<close> and \<open>mod\<close> on \<^typ>\<open>int\<close> are.
  \<^verbatim>\<open>result[-1]\<close> raises on an empty list.
\<close>

definition generate_sharded_data :: "int \<Rightarrow> string \<Rightarrow> py_error + string list" where
  "generate_sharded_data count data =
     (if count = 0 then Inl ZeroDivisionError
      else
        let splicenum = len data div count;
            rem = len data mod count;
            result = map (\<lambda>z. py_slice data (splicenum * z) (splicenum * (z + 1)))
                         (py_range count)
        in if rem > 0
           then (if result = [] then Inl IndexError
                 else Inr (butlast result @ [last result @ py_slice_from data (- rem)]))
           else Inr result)"

section \<open>Writing shards\<close>

text \<open>
  \<^verbatim>\<open>_write_shard_mapping(num, data, replication)\<close>. With \<open>replication\<close> set,
  \<^verbatim>\<open>num.index('-')\<close> raises when there is no dash, and a missing parent is
  \<^verbatim>\<open>None\<close>, whose subscript raises \<^verbatim>\<open>TypeError\<close>.
\<close>

definition write_shard_mapping :: "string \<Rightarrow> string \<Rightarrow> bool \<Rightarrow> shard_handler \<Rightarrow> unit outcome" where
  "write_shard_mapping num data replication s =
     (if replication then
        (if \<not> py_in CHR ''-'' num then Raise ValueError s
         else
           (case map_of (mapping s) (takeWhile (\<lambda>c. c \<noteq> CHR ''-'') num) of
              None \<Rightarrow> Raise TypeError s
            | Some parent_shard \<Rightarrow>
                Return () (s\<lparr>mapping := AList.update num
                    \<lparr>shard_start = shard_start parent_shard, shard_end = shard_end parent_shard\<rparr>
                    (mapping s)\<rparr>)))
      else
        and_then (lift (py_int num) s) (\<lambda>n s.
          let s1 = (if n = 0 then reset_char_position s else s);
              s2 = s1\<lparr>mapping := AList.update num
                     \<lparr>shard_start = (if last_char_position s1 = 0 then last_char_position s1
                                      else last_char_position s1 + 1),
                      shard_end = last_char_position s1 + len data\<rparr>
                     (mapping s1)\<rparr>
          in Return () (s2\<lparr>last_char_position := last_char_position s2 + len data\<rparr>)))"

text \<open>\<^verbatim>\<open>_write_shard(num, data)\<close>: the directory is made when it is not there.\<close>

definition write_shard :: "int \<Rightarrow> string \<Rightarrow> shard_handler \<Rightarrow> unit outcome" where
  "write_shard num data s =
     (let s1 = (case data_dir s of None \<Rightarrow> s\<lparr>data_dir := Some []\<rparr> | Some d \<Rightarrow> s)
      in and_then (write_file (blob (str_of_int num)) data s1)
           (\<lambda>u. write_shard_mapping (str_of_int num) data False))"

text \<open>\<^verbatim>\<open>for num, d in enumerate(spliced_data): self._write_shard(num, d)\<close>.\<close>

definition write_shards :: "string list \<Rightarrow> shard_handler \<Rightarrow> unit outcome" where
  "write_shards spliced_data s =
     for_each (py_enumerate spliced_data) (\<lambda>(num, d). write_shard num d) s"

text \<open>
  \<^verbatim>\<open>build_shards(count, data)\<close> returns the advisory string when a mapping is
  there, and \<^verbatim>\<open>None\<close> otherwise.
\<close>

definition build_shards :: "int \<Rightarrow> string \<Rightarrow> shard_handler \<Rightarrow> string option outcome" where
  "build_shards count data s =
     (if mapping s \<noteq> []
      then Return (Some ''Cannot build shard setup -- sharding already exists.'') s
      else
        and_then (lift (generate_sharded_data count data) s) (\<lambda>spliced_data s.
        and_then (write_shards spliced_data s) (\<lambda>u s.
        Return None (write_map s))))"

text \<open>\<^verbatim>\<open>load_data_from_shards()\<close>.\<close>

definition load_data_from_shards :: "shard_handler \<Rightarrow> py_error + string" where
  "load_data_from_shards s =
     then_e (try_map (\<lambda>db. read_file (blob db) s) (get_shard_ids s))
       (\<lambda>result. Inr (concat result))"

section \<open>Consistency of primaries and replicas\<close>

text \<open>\<^verbatim>\<open>primary_files_okay()\<close>.\<close>

definition primary_files_okay :: "shard_handler \<Rightarrow> py_error + bool" where
  "primary_files_okay s =
     then_e (listdir s) (\<lambda>files.
       let primary_keys = get_shard_ids s;
           primary_files = sort (filter (\<lambda>file. \<not> py_in CHR ''-'' file) files)
       in if list_ex (\<lambda>(file, key). split_first CHR ''.'' file \<noteq> key)
               (zip primary_files primary_keys)
          then Inr False
          else Inr (length primary_files = length primary_keys))"

text \<open>
  \<^verbatim>\<open>create_replication_dict()\<close>: the replica keys of each level, the levels in
  the order in which the sorted keys first name them.
\<close>

fun add_to_level :: "int \<Rightarrow> string \<Rightarrow> (int \<times> string list) list \<Rightarrow> (int \<times> string list) list" where
  "add_to_level key_level key replications =
     (case map_of replications key_level of
        Some keys \<Rightarrow> AList.update key_level (keys @ [key]) replications
      | None \<Rightarrow> AList.update key_level [key] replications)"

fun collect_levels :: "string list \<Rightarrow> (int \<times> string list) list
                        \<Rightarrow> py_error + (int \<times> string list) list" where
  "collect_levels [] replications = Inr replications"
| "collect_levels (key # keys) replications =
     (case int_part CHR ''-'' 1 key of
        Inl e \<Rightarrow> Inl e
      | Inr key_level \<Rightarrow> collect_levels keys (add_to_level key_level key replications))"

definition create_replication_dict :: "shard_handler \<Rightarrow> py_error + (int \<times> string list) list" where
  "create_replication_dict s = collect_levels (get_replication_ids s) []"

text \<open>\<^verbatim>\<open>rep_level_has_same_keys(rep_keys, primary_keys, level)\<close>.\<close>

definition rep_level_has_same_keys ::
  "string list \<Rightarrow> string list \<Rightarrow> int \<Rightarrow> shard_handler \<Rightarrow> py_error + bool" where
  "rep_level_has_same_keys rep_keys primary_keys level s =
     (if length rep_keys \<noteq> length primary_keys then Inr False
      else if list_ex (\<lambda>(rep_key, primary_key). split_first CHR ''-'' rep_key \<noteq> primary_key)
                (zip rep_keys primary_keys)
      then Inr False
      else
        then_e (listdir s) (\<lambda>all_files.
          let files = filter (\<lambda>filename. py_in CHR ''-'' filename) all_files
          in then_e (try_filter (\<lambda>filename.
                        then_e (py_nth (split_on CHR ''-'' filename) 1)
                          (\<lambda>part. Inr (py_eq_int_str level part)))
                      files)
               (\<lambda>level_files.
                  if length level_files \<noteq> length primary_keys then Inr False
                  else Inr True)))"

text \<open>\<^verbatim>\<open>update_replicated_levels()\<close>: its two loop bodies, then the method.\<close>

definition refresh_replica :: "string \<Rightarrow> shard_handler \<Rightarrow> unit outcome" where
  "refresh_replica key s =
     (let key_name = split_first CHR ''-'' key
      in case map_of (mapping s) key_name of
           None \<Rightarrow> Raise KeyError s
         | Some v \<Rightarrow> Return () (s\<lparr>mapping := AList.update key v (mapping s)\<rparr>))"

definition regenerate_replica :: "int \<Rightarrow> string \<Rightarrow> shard_handler \<Rightarrow> unit outcome" where
  "regenerate_replica level primary_key s =
     (case map_of (mapping s) primary_key of
        None \<Rightarrow> Raise KeyError s
      | Some v \<Rightarrow>
          copyfile (blob primary_key) (blob (replica_key primary_key level))
            (s\<lparr>mapping := AList.update (replica_key primary_key level) v (mapping s)\<rparr>))"

definition reconcile_level :: "string list \<Rightarrow> int \<times> string list \<Rightarrow> shard_handler \<Rightarrow> unit outcome" where
  "reconcile_level primary_keys lk s =
     (case lk of (level, keys) \<Rightarrow>
        and_then (lift (rep_level_has_same_keys keys primary_keys level s) s) (\<lambda>same s.
          if \<not> same then for_each primary_keys (regenerate_replica level) s
          else Return () s))"

definition update_replicated_levels :: "shard_handler \<Rightarrow> unit outcome" where
  "update_replicated_levels s =
     and_then (for_each (get_replication_ids s) refresh_replica s) (\<lambda>u s.
       let primary_keys = get_shard_ids s
       in and_then (lift (create_replication_dict s) s) (\<lambda>replications s.
          and_then (for_each replications (reconcile_level primary_keys) s) (\<lambda>u s.
          Return () (write_map s))))"

text \<open>
  \<^verbatim>\<open>restore_primary_files()\<close>. The inner loop copies the first replica whose
  shard number is \<open>i\<close> and stops.
\<close>

fun copy_first_match :: "int \<Rightarrow> string list \<Rightarrow> shard_handler \<Rightarrow> unit outcome" where
  "copy_first_match i [] s = Return () s"
| "copy_first_match i (other_file # other_files) s =
     (case py_int (split_first CHR ''-'' other_file) of
        Inl e \<Rightarrow> Raise e s
      | Inr n \<Rightarrow>
          if i = n then copyfile other_file (blob (str_of_int i)) s
          else copy_first_match i other_files s)"

definition restore_pass :: "shard_handler \<Rightarrow> unit outcome" where
  "restore_pass s =
     and_then (lift (listdir s) s) (\<lambda>files s.
       let primary_files = filter (\<lambda>file. \<not> py_in CHR ''-'' file) files;
           other_files = filter (\<lambda>file. py_in CHR ''-'' file) files
       in
       and_then (lift (try_map (\<lambda>file. py_int (split_first CHR ''.'' file)) primary_files) s)
         (\<lambda>primary_file_numbers s.
       and_then (lift (try_map (\<lambda>file. py_int (split_first CHR ''-'' file)) other_files) s)
         (\<lambda>other_file_numbers s.
       and_then (lift (if primary_files \<noteq> []
                       then then_e (py_max primary_file_numbers) (\<lambda>m. Inr (Some m))
                       else Inr None) s)
         (\<lambda>last_primary_file_num s.
       and_then (lift (py_max other_file_numbers) s)
         (\<lambda>other_files_num s.
       and_then
         (if primary_files = []
             \<or> (case last_primary_file_num of Some l \<Rightarrow> l < other_files_num | None \<Rightarrow> True)
          then and_then (lift (py_nth other_files (- 1)) s)
                 (\<lambda>src. copyfile src (blob (str_of_int other_files_num)))
          else Return () s)
         (\<lambda>u s.
       for_each (py_enumerate primary_files)
         (\<lambda>(i, file) s.
            and_then (lift (py_int (split_first CHR ''.'' file)) s) (\<lambda>n s.
              if i \<noteq> n then copy_first_match i other_files s else Return () s))
         s))))))"

text \<open>
  The \<^verbatim>\<open>while\<close> loop of \<^verbatim>\<open>restore_primary_files\<close>: \<open>x\<close> is its budget,
  and \<^verbatim>\<open>primary_files_okay()\<close> is evaluated before \<^verbatim>\<open>x > 0\<close>.
\<close>

fun restore_loop :: "nat \<Rightarrow> shard_handler \<Rightarrow> unit outcome" where
  "restore_loop 0 s =
     (case primary_files_okay s of Inl e \<Rightarrow> Raise e s | Inr ok \<Rightarrow> Return () s)"
| "restore_loop (Suc x) s =
     (case primary_files_okay s of
        Inl e \<Rightarrow> Raise e s
      | Inr ok \<Rightarrow>
          if \<not> ok
          then (case restore_pass s of
                  Return u s' \<Rightarrow> restore_loop x s'
                | Raise e s' \<Rightarrow> Raise e s')
          else Return () s)"

definition restore_primary_files :: "shard_handler \<Rightarrow> unit outcome" where
  "restore_primary_files s =
     and_then (lift (listdir s) s) (\<lambda>files s.
     and_then (restore_loop (length files) s) (\<lambda>u s.
     and_then (lift (primary_files_okay s) s) (\<lambda>ok s.
       if \<not> ok then Raise (Exception ''Missing files cannot be recoved'') s
       else Return () s)))"

text \<open>\<^verbatim>\<open>sync_replication()\<close>.\<close>

definition sync_replication :: "shard_handler \<Rightarrow> unit outcome" where
  "sync_replication s =
     and_then (lift (primary_files_okay s) s) (\<lambda>ok s.
     and_then (if \<not> ok then restore_primary_files s else Return () s) (\<lambda>u s.
     update_replicated_levels s))"

section \<open>Rebalancing and replication levels\<close>

text \<open>\<^verbatim>\<open>add_shard()\<close>.\<close>

definition add_shard :: "shard_handler \<Rightarrow> unit outcome" where
  "add_shard s =
     and_then (sync_replication s) (\<lambda>u s.
       let s = s\<lparr>mapping := load_map s\<rparr>
       in
       and_then (lift (load_data_from_shards s) s) (\<lambda>data s.
       and_then (lift (try_map py_int (get_shard_ids s)) s) (\<lambda>keys s.
       and_then (lift (py_max keys) s) (\<lambda>largest s.
         let new_shard_num = largest + 2
         in
         and_then (lift (generate_sharded_data new_shard_num data) s) (\<lambda>spliced_data s.
         and_then (write_shards spliced_data s) (\<lambda>u s.
         sync_replication (write_map s)))))))"

text \<open>
  \<^verbatim>\<open>remove_shard()\<close>. Its two clean-up loops take the file names and the keys
  as they were listed before the loop started.
\<close>

definition remove_shard_file :: "int \<Rightarrow> string \<Rightarrow> shard_handler \<Rightarrow> unit outcome" where
  "remove_shard_file new_shard_num filename s =
     (if \<not> py_in CHR ''-'' filename
      then (if str_of_int new_shard_num = split_first CHR ''.'' filename
            then remove_file filename s else Return () s)
      else (if str_of_int new_shard_num = split_first CHR ''-'' filename
            then remove_file filename s else Return () s))"

definition remove_shard_key :: "int \<Rightarrow> string \<Rightarrow> shard_handler \<Rightarrow> unit outcome" where
  "remove_shard_key new_shard_num key s =
     (if \<not> py_in CHR ''-'' key
      then (if key = str_of_int new_shard_num
            then Return () (s\<lparr>mapping := AList.delete key (mapping s)\<rparr>) else Return () s)
      else (if split_first CHR ''-'' key = str_of_int new_shard_num
            then Return () (s\<lparr>mapping := AList.delete key (mapping s)\<rparr>) else Return () s))"

definition remove_shard :: "shard_handler \<Rightarrow> unit outcome" where
  "remove_shard s =
     and_then (sync_replication s) (\<lambda>u s.
       let s = s\<lparr>mapping := load_map s\<rparr>
       in
       and_then (lift (load_data_from_shards s) s) (\<lambda>data s.
       and_then (lift (try_map py_int (get_shard_ids s)) s) (\<lambda>keys s.
         if length keys = 1 then Raise (Exception ''Cannot remove last shard'') s
         else
           and_then (lift (py_max keys) s) (\<lambda>new_shard_num s.
           and_then (lift (generate_sharded_data new_shard_num data) s) (\<lambda>spliced_data s.
           and_then (lift (listdir s) s) (\<lambda>files s.
           and_then (for_each files (remove_shard_file new_shard_num) s) (\<lambda>u s.
           and_then (for_each (map fst (mapping s)) (remove_shard_key new_shard_num) s) (\<lambda>u s.
           and_then (write_shards spliced_data s) (\<lambda>u s.
           sync_replication (write_map s))))))))))"

text \<open>
  \<^verbatim>\<open>add_replication()\<close>: the new replicas are numbered by the position of the
  primary in the sorted list, not by its name.
\<close>

definition add_replication :: "shard_handler \<Rightarrow> unit outcome" where
  "add_replication s =
     and_then (sync_replication s) (\<lambda>u s.
       let s = s\<lparr>replication_level := replication_level s + 1\<rparr>
       in
       and_then (lift (listdir s) s) (\<lambda>files s.
         let originals = sort (filter (\<lambda>filename. \<not> py_in CHR ''-'' filename) files)
         in
         and_then (for_each (py_enumerate originals)
                     (\<lambda>(i, file) s.
                        copyfile file
                          (blob (replica_key (str_of_int i) (replication_level s))) s)
                     s) (\<lambda>u s.
         and_then (for_each (py_enumerate (get_shard_ids s))
                     (\<lambda>(i, key) s.
                        case map_of (mapping s) key of
                          None \<Rightarrow> Raise KeyError s
                        | Some v \<Rightarrow>
                            Return () (s\<lparr>mapping := AList.update
                              (replica_key (str_of_int i) (replication_level s)) v
                              (mapping s)\<rparr>))
                     s) (\<lambda>u s.
         sync_replication (write_map s)))))"

text \<open>\<^verbatim>\<open>remove_replication()\<close>.\<close>

definition remove_replica :: "string \<Rightarrow> shard_handler \<Rightarrow> unit outcome" where
  "remove_replica key s =
     (case map_of (mapping s) key of
        None \<Rightarrow> Raise KeyError s
      | Some v \<Rightarrow> remove_file (blob key) (s\<lparr>mapping := AList.delete key (mapping s)\<rparr>))"

definition remove_replication :: "shard_handler \<Rightarrow> unit outcome" where
  "remove_replication s =
     and_then (sync_replication s) (\<lambda>u s.
       if replication_level s = 0 then Raise (Exception ''No replication levels to remove.'') s
       else
         let s = s\<lparr>replication_level := replication_level s - 1\<rparr>
         in
         and_then (lift (try_filter
                           (\<lambda>key. then_e (int_part CHR ''-'' 1 key)
                                     (\<lambda>l. Inr (l > replication_level s)))
                           (get_replication_ids s)) s) (\<lambda>backup_keys s.
         and_then (for_each backup_keys remove_replica s) (\<lambda>u s.
         sync_replication (write_map s))))"

section \<open>The word at an index\<close>

definition punctuation :: string where
  "punctuation = [CHR 0x20, CHR '','', CHR ''.'', CHR ''?'', CHR ''!'', CHR 0x22, CHR '';'']"

text \<open>
  The loops of \<^verbatim>\<open>get_word_at_index\<close>, \<^verbatim>\<open>from_previous_file\<close> and
  \<^verbatim>\<open>from_following_file\<close>. Each reads \<^verbatim>\<open>text[i]\<close> before it tests it, so
  each ends with \<^verbatim>\<open>IndexError\<close> when it runs off the text.
\<close>

function skip_punctuation :: "string \<Rightarrow> int \<Rightarrow> py_error + int" where
  "skip_punctuation text new_index =
     (case py_nth text new_index of
        Inl e \<Rightarrow> Inl e
      | Inr start_char \<Rightarrow>
          if start_char \<in> set punctuation then skip_punctuation text (new_index + 1)
          else Inr new_index)"
  by pat_completeness auto
termination
  by (relation "measure (\<lambda>(text, i). nat (len text - i))")
     (auto simp: py_nth_def Let_def split: if_splits)

function expand_before :: "string \<Rightarrow> int \<Rightarrow> string \<Rightarrow> py_error + int \<times> string" where
  "expand_before text before_index string =
     (if before_index \<noteq> 0
      then (case py_nth text before_index of
              Inl e \<Rightarrow> Inl e
            | Inr c \<Rightarrow>
                if c \<noteq> CHR 0x20
                then (case py_nth text (before_index - 1) of
                        Inl e \<Rightarrow> Inl e
                      | Inr before_char \<Rightarrow>
                          expand_before text (before_index - 1) (before_char # string))
                else Inr (before_index, string))
      else Inr (before_index, string))"
  by pat_completeness auto
termination
  by (relation "measure (\<lambda>(text, i, string). nat (i + len text + 1))")
     (auto simp: py_nth_def Let_def split: if_splits)

function expand_after :: "string \<Rightarrow> int \<Rightarrow> string \<Rightarrow> py_error + int \<times> string" where
  "expand_after text after_index string =
     (if after_index \<noteq> len text - 1
      then (case py_nth text after_index of
              Inl e \<Rightarrow> Inl e
            | Inr c \<Rightarrow>
                if c \<noteq> CHR 0x20
                then (case py_nth text (after_index + 1) of
                        Inl e \<Rightarrow> Inl e
                      | Inr after_char \<Rightarrow>
                          expand_after text (after_index + 1) (string @ [after_char]))
                else Inr (after_index, string))
      else Inr (after_index, string))"
  by pat_completeness auto
termination
  by (relation "measure (\<lambda>(text, i, string). nat (len text - i))")
     (auto simp: py_nth_def Let_def split: if_splits)

function previous_run :: "string \<Rightarrow> int \<Rightarrow> string \<Rightarrow> py_error + string" where
  "previous_run text last_index string =
     (case py_nth text last_index of
        Inl e \<Rightarrow> Inl e
      | Inr last_char \<Rightarrow>
          if last_char \<noteq> CHR 0x20
          then previous_run text (last_index - 1) (last_char # string)
          else Inr string)"
  by pat_completeness auto
termination
  by (relation "measure (\<lambda>(text, i, string). nat (i + len text + 1))")
     (auto simp: py_nth_def Let_def split: if_splits)

function following_run :: "string \<Rightarrow> int \<Rightarrow> string \<Rightarrow> py_error + string" where
  "following_run text first_index string =
     (case py_nth text first_index of
        Inl e \<Rightarrow> Inl e
      | Inr first_char \<Rightarrow>
          if first_char \<noteq> CHR 0x20
          then following_run text (first_index + 1) (string @ [first_char])
          else Inr string)"
  by pat_completeness auto
termination
  by (relation "measure (\<lambda>(text, i, string). nat (len text - i))")
     (auto simp: py_nth_def Let_def split: if_splits)

definition from_previous_file :: "string \<Rightarrow> shard_handler \<Rightarrow> py_error + string" where
  "from_previous_file file s =
     then_e (read_file file s) (\<lambda>text. previous_run text (len text - 1) [])"

definition from_following_file :: "string \<Rightarrow> shard_handler \<Rightarrow> py_error + string" where
  "from_following_file file s =
     then_e (read_file file s) (\<lambda>text. following_run text 0 [])"

text \<open>The body of the \<^verbatim>\<open>if\<close> in \<^verbatim>\<open>get_word_at_index\<close>, for the shard \<open>key\<close>.\<close>

definition word_in_shard ::
  "string \<Rightarrow> int \<Rightarrow> int \<Rightarrow> shard_handler \<Rightarrow> py_error + string \<times> string" where
  "word_in_shard key largest_key new_index s =
     then_e (read_file (blob key) s) (\<lambda>text.
     then_e (skip_punctuation text new_index) (\<lambda>new_index.
     then_e (py_nth text new_index) (\<lambda>c.
     then_e (expand_before text new_index [c]) (\<lambda>(before_index, string).
     then_e (if before_index = 0
             then then_e (py_int key) (\<lambda>k.
                  then_e (from_previous_file (blob (str_of_int (k - 1))) s)
                    (\<lambda>before_string. Inr (before_string @ string)))
             else Inr string) (\<lambda>string.
     then_e (expand_after text new_index string) (\<lambda>(after_index, string).
     then_e (if after_index = len text - 1 \<and> key \<noteq> str_of_int largest_key
             then then_e (py_int key) (\<lambda>k.
                  then_e (from_following_file (blob (str_of_int (k + 1))) s)
                    (\<lambda>after_string. Inr (string @ after_string)))
             else Inr string) (\<lambda>string.
     Inr (blob key,
          py_remove_char CHR ''.'' (py_remove_char CHR 0x0A (py_strip punctuation string))))))))))"

text \<open>
  The \<^verbatim>\<open>for key in keys\<close> loop: the first shard whose range has the index
  decides; when no range has it the loop ends and the method returns \<^verbatim>\<open>None\<close>.
\<close>

fun find_word :: "string list \<Rightarrow> int \<Rightarrow> int \<Rightarrow> shard_handler
                   \<Rightarrow> py_error + (string \<times> string) option" where
  "find_word [] largest_key index s = Inr None"
| "find_word (key # keys) largest_key index s =
     (case map_of (mapping s) key of
        None \<Rightarrow> Inl KeyError
      | Some m \<Rightarrow>
          if index \<ge> shard_start m \<and> index \<le> shard_end m
          then then_e (word_in_shard key largest_key (index - shard_start m) s)
                 (\<lambda>r. Inr (Some r))
          else find_word keys largest_key index s)"

definition get_word_at_index :: "int \<Rightarrow> shard_handler \<Rightarrow> py_error + (string \<times> string) option" where
  "get_word_at_index index s =
     (let keys = get_shard_ids s
      in then_e (try_map py_int keys) (\<lambda>numbers.
         then_e (py_max numbers) (\<lambda>largest_key.
         find_word keys largest_key index s)))"

section \<open>What the statements below speak about\<close>

text \<open>
  The primary part of a handler: the mapping entries and the blobs whose names
  have no dash, in their order.
\<close>

definition primary_entries :: "shard_handler \<Rightarrow> (string \<times> shard_meta) list" where
  "primary_entries s = filter (\<lambda>(key, m). \<not> py_in CHR ''-'' key) (mapping s)"

definition primary_blobs :: "shard_handler \<Rightarrow> (string \<times> string) list option" where
  "primary_blobs s = map_option (filter (\<lambda>(name, c). \<not> py_in CHR ''-'' name)) (data_dir s)"

definition same_primaries :: "shard_handler \<Rightarrow> shard_handler \<Rightarrow> bool" where
  "same_primaries s t =
     (primary_entries t = primary_entries s \<and> primary_blobs t = primary_blobs s
      \<and> last_char_position t = last_char_position s
      \<and> replication_level t = replication_level s
      \<and> dir_order t = dir_order s)"

text \<open>
  The replica of \<open>primary_key\<close> at \<open>level\<close> has the metadata and the content of
  its primary, and both are there.
\<close>

definition replica_matches :: "shard_handler \<Rightarrow> string \<Rightarrow> int \<Rightarrow> bool" where
  "replica_matches s primary_key level =
     (map_of (mapping s) primary_key \<noteq> None
      \<and> map_of (mapping s) (replica_key primary_key level) = map_of (mapping s) primary_key
      \<and> (case file_content (blob primary_key) s of
            Inl e \<Rightarrow> False
          | Inr c \<Rightarrow> file_content (blob (replica_key primary_key level)) s = Inr c))"

text \<open>Every replica key of the mapping carries the metadata of the key before its dash.\<close>

definition meta_refreshed :: "shard_handler \<Rightarrow> bool" where
  "meta_refreshed s =
     (\<forall>k \<in> fst ` set (mapping s). py_in CHR ''-'' k \<longrightarrow>
        map_of (mapping s) k = map_of (mapping s) (split_first CHR ''-'' k))"

text \<open>Every replica key of the mapping names a level in \<open>L\<close>.\<close>

definition levels_within :: "int set \<Rightarrow> shard_handler \<Rightarrow> bool" where
  "levels_within L s =
     (\<forall>k \<in> fst ` set (mapping s). py_in CHR ''-'' k \<longrightarrow> (\<exists>l \<in> L. int_part CHR ''-'' 1 k = Inr l))"

text \<open>
  What \<^verbatim>\<open>update_replicated_levels\<close> leaves: refreshed metadata, every level that
  a replica key names complete and equal to the primaries, and the mapping saved.
\<close>

definition reconciled :: "shard_handler \<Rightarrow> bool" where
  "reconciled s =
     (meta_refreshed s
      \<and> (\<forall>k \<in> fst ` set (mapping s). py_in CHR ''-'' k \<longrightarrow>
            (\<exists>l. int_part CHR ''-'' 1 k = Inr l
                 \<and> (\<forall>p \<in> set (get_shard_ids s). replica_matches s p l)))
      \<and> mapfile s = Some (mapping s))"

text \<open>What \<^verbatim>\<open>sync_replication\<close> leaves.\<close>

definition synced :: "shard_handler \<Rightarrow> bool" where
  "synced s = (primary_files_okay s = Inr True \<and> reconciled s)"

text \<open>Some primary shard has the index within its recorded range.\<close>

definition index_in_some_shard :: "int \<Rightarrow> shard_handler \<Rightarrow> bool" where
  "index_in_some_shard index s =
     list_ex (\<lambda>key. case map_of (mapping s) key of
                       None \<Rightarrow> False
                     | Some m \<Rightarrow> shard_start m \<le> index \<and> index \<le> shard_end m)
       (get_shard_ids s)"

text \<open>
  What the write loop records for a list of slices: the running offset before
  slice \<open>i\<close> is the length of the slices before it, and the entry of shard \<open>i\<close>
  starts one after that offset (at it when it is 0) and ends at the offset after
  slice \<open>i\<close>. \<open>shard_key i\<close> is \<^verbatim>\<open>str(i)\<close>.
\<close>

definition offset_before :: "string list \<Rightarrow> nat \<Rightarrow> int" where
  "offset_before ds i = len (concat (take i ds))"

definition expected_meta :: "string list \<Rightarrow> nat \<Rightarrow> shard_meta" where
  "expected_meta ds i =
     \<lparr>shard_start = (if offset_before ds i = 0 then 0 else offset_before ds i + 1),
      shard_end = offset_before ds (Suc i)\<rparr>"

definition shard_key :: "nat \<Rightarrow> string" where
  "shard_key i = str_of_int (int i)"

text \<open>
  The handler \<open>t'\<close> is \<open>t\<close> after the slices from index \<open>k\<close> on have been written:
  their entries and blobs are as expected, and nothing else has changed.
\<close>

definition written :: "string list \<Rightarrow> nat \<Rightarrow> shard_handler \<Rightarrow> shard_handler \<Rightarrow> bool" where
  "written ds k t t' =
     ((\<forall>i. k \<le> i \<and> i < length ds \<longrightarrow>
          map_of (mapping t') (shard_key i) = Some (expected_meta ds i)
          \<and> file_content (blob (shard_key i)) t' = Inr (ds ! i))
      \<and> (\<forall>key. key \<notin> shard_key ` {k..<length ds} \<longrightarrow>
            map_of (mapping t') key = map_of (mapping t) key)
      \<and> (\<forall>name. name \<notin> (\<lambda>i. blob (shard_key i)) ` {k..<length ds} \<longrightarrow>
            file_content name t' = file_content name t)
      \<and> fst ` set (mapping t') = fst ` set (mapping t) \<union> shard_key ` {k..<length ds}
      \<and> (k < length ds \<longrightarrow> last_char_position t' = offset_before ds (length ds))
      \<and> replication_level t' = replication_level t \<and> mapfile t' = mapfile t
      \<and> dir_order t' = dir_order t)"

text \<open>Two handlers that differ in the files of \<^verbatim>\<open>./data\<close> at most.\<close>

definition files_only :: "shard_handler \<Rightarrow> shard_handler \<Rightarrow> bool" where
  "files_only s t =
     (mapping t = mapping s \<and> last_char_position t = last_char_position s
      \<and> replication_level t = replication_level s \<and> mapfile t = mapfile s
      \<and> dir_order t = dir_order s)"

text \<open>Two handlers with the same primary entries in the mapping.\<close>

definition same_entries :: "shard_handler \<Rightarrow> shard_handler \<Rightarrow> bool" where
  "same_entries s t = (primary_entries t = primary_entries s)"

text \<open>
  The recorded offsets of the primary shards are chained: shard 0 starts at 0,
  and a shard whose predecessor is recorded starts one after the predecessor's
  end, or at 0 when that end is 0.
\<close>

definition offsets_chained :: "shard_handler \<Rightarrow> bool" where
  "offsets_chained s =
     ((\<forall>m. map_of (mapping s) (shard_key 0) = Some m \<longrightarrow> shard_start m = 0)
      \<and> (\<forall>i a b. map_of (mapping s) (shard_key i) = Some a
                  \<and> map_of (mapping s) (shard_key (Suc i)) = Some b
              \<longrightarrow> shard_start b = (if shard_end a = 0 then 0 else shard_end a + 1)))"

text \<open>The handler an outcome leaves behind, returned or raised.\<close>

fun handler_after :: "'a outcome \<Rightarrow> shard_handler" where
  "handler_after (Return v s) = s"
| "handler_after (Raise e s) = s"

section \<open>Handlers used as examples\<close>

text \<open>A new handler where there is neither \<^verbatim>\<open>mapping.json\<close> nor \<^verbatim>\<open>./data\<close>.\<close>

definition empty_handler :: shard_handler where
  "empty_handler =
     \<lparr>mapping = [], last_char_position = 0, replication_level = 0,
      mapfile = None, data_dir = None,
      dir_order = []\<rparr>"

text \<open>
  One shard \<open>''abc''\<close> with one replication level, whose replica has fallen
  behind its primary; and the same handler with the replica brought up to date.
\<close>

definition stale_replica_handler :: shard_handler where
  "stale_replica_handler =
     \<lparr>mapping = [(''0'', \<lparr>shard_start = 0, shard_end = 3\<rparr>),
                 (''0-1'', \<lparr>shard_start = 0, shard_end = 2\<rparr>)],
      last_char_position = 3, replication_level = 1,
      mapfile = Some [(''0'', \<lparr>shard_start = 0, shard_end = 3\<rparr>),
                      (''0-1'', \<lparr>shard_start = 0, shard_end = 2\<rparr>)],
      data_dir = Some [(''0.txt'', ''abc''), (''0-1.txt'', ''ab'')],
      dir_order = []\<rparr>"

definition fresh_replica_handler :: shard_handler where
  "fresh_replica_handler =
     \<lparr>mapping = [(''0'', \<lparr>shard_start = 0, shard_end = 3\<rparr>),
                 (''0-1'', \<lparr>shard_start = 0, shard_end = 3\<rparr>)],
      last_char_position = 3, replication_level = 1,
      mapfile = Some [(''0'', \<lparr>shard_start = 0, shard_end = 3\<rparr>),
                      (''0-1'', \<lparr>shard_start = 0, shard_end = 3\<rparr>)],
      data_dir = Some [(''0.txt'', ''abc''), (''0-1.txt'', ''abc'')],
      dir_order = []\<rparr>"

text \<open>
  One shard whose only replica is at level 2: a mapping file and a directory
  from which \<^verbatim>\<open>ShardHandler()\<close> computes the replication level 2.
\<close>

definition level_gap_handler :: shard_handler where
  "level_gap_handler =
     \<lparr>mapping = [(''0'', \<lparr>shard_start = 0, shard_end = 3\<rparr>),
                 (''0-2'', \<lparr>shard_start = 0, shard_end = 3\<rparr>)],
      last_char_position = 0, replication_level = 2,
      mapfile = Some [(''0'', \<lparr>shard_start = 0, shard_end = 3\<rparr>),
                      (''0-2'', \<lparr>shard_start = 0, shard_end = 3\<rparr>)],
      data_dir = Some [(''0.txt'', ''abc''), (''0-2.txt'', ''abc'')],
      dir_order = []\<rparr>"

text \<open>
  The text \<open>''aabb''\<close> in two shards with one replication level, after the
  primary blob of shard 1 has been lost. The directory has no entry in
  \<open>dir_order\<close>, so it is listed as it is stored: the replica of shard 1 before
  the replica of shard 0.
\<close>

definition lost_primary_handler :: shard_handler where
  "lost_primary_handler =
     \<lparr>mapping = [(''0'', \<lparr>shard_start = 0, shard_end = 2\<rparr>),
                 (''1'', \<lparr>shard_start = 3, shard_end = 4\<rparr>),
                 (''0-1'', \<lparr>shard_start = 0, shard_end = 2\<rparr>),
                 (''1-1'', \<lparr>shard_start = 3, shard_end = 4\<rparr>)],
      last_char_position = 4, replication_level = 1,
      mapfile = Some [(''0'', \<lparr>shard_start = 0, shard_end = 2\<rparr>),
                      (''1'', \<lparr>shard_start = 3, shard_end = 4\<rparr>),
                      (''0-1'', \<lparr>shard_start = 0, shard_end = 2\<rparr>),
                      (''1-1'', \<lparr>shard_start = 3, shard_end = 4\<rparr>)],
      data_dir = Some [(''0.txt'', ''aa''), (''1-1.txt'', ''bb''), (''0-1.txt'', ''aa'')],
      dir_order = []\<rparr>"

text \<open>The text \<open>''aabb''\<close> in two shards, no replication.\<close>

definition two_shard_handler :: shard_handler where
  "two_shard_handler =
     \<lparr>mapping = [(''0'', \<lparr>shard_start = 0, shard_end = 2\<rparr>),
                 (''1'', \<lparr>shard_start = 3, shard_end = 4\<rparr>)],
      last_char_position = 4, replication_level = 0,
      mapfile = Some [(''0'', \<lparr>shard_start = 0, shard_end = 2\<rparr>),
                      (''1'', \<lparr>shard_start = 3, shard_end = 4\<rparr>)],
      data_dir = Some [(''0.txt'', ''aa''), (''1.txt'', ''bb'')],
      dir_order = []\<rparr>"

section \<open>Properties of the splitter\<close>

lemma py_slice_nonneg:
  assumes "0 \<le> a" "a \<le> b" "b \<le> len xs"
  shows "py_slice xs a b = drop (nat a) (take (nat b) xs)"
  using assms by (simp add: py_slice_def clamp_index_def min_def)

lemma concat_equal_slices:
  "n * k \<le> length xs \<Longrightarrow>
     concat (map (\<lambda>z. drop (n * z) (take (n * Suc z) xs)) [0..<k]) = take (n * k) xs"
proof (induction k)
  case 0
  then show ?case by simp
next
  case (Suc k)
  have le: "n * k \<le> length xs" using Suc.prems by (simp add: algebra_simps)
  have "take (n * k) xs @ drop (n * k) (take (n * Suc k) xs) = take (n * Suc k) xs"
    by (metis append_take_drop_id le_add1 mult_Suc_right take_take min.absorb1 add.commute
        min.commute)
  with Suc.IH [OF le] show ?case by simp
qed

lemma slices_as_nat:
  assumes "0 \<le> n" "n * int k \<le> len xs"
  shows "map (\<lambda>z. py_slice xs (n * z) (n * (z + 1))) (map int [0..<k])
         = map (\<lambda>z. drop (nat n * z) (take (nat n * Suc z) xs)) [0..<k]"
proof -
  have "py_slice xs (n * int z) (n * (int z + 1)) = drop (nat n * z) (take (nat n * Suc z) xs)"
    if "z < k" for z
  proof -
    have "n * (int z + 1) \<le> n * int k"
      using that assms(1) by (intro mult_left_mono) auto
    then have b: "n * (int z + 1) \<le> len xs" using assms(2) by linarith
    have a: "n * int z \<le> n * (int z + 1)" using assms(1) by (simp add: algebra_simps)
    have "py_slice xs (n * int z) (n * (int z + 1))
          = drop (nat (n * int z)) (take (nat (n * (int z + 1))) xs)"
      using assms(1) a b by (intro py_slice_nonneg) auto
    moreover have "nat (n * int z) = nat n * z"
      using assms(1) by (simp add: nat_mult_distrib)
    moreover have "nat (n * (int z + 1)) = nat n * Suc z"
      using assms(1) by (simp add: nat_mult_distrib nat_add_distrib)
    ultimately show ?thesis by simp
  qed
  then show ?thesis by simp
qed

lemma split_body_concat:
  assumes "0 < count"
  shows "concat (map (\<lambda>z. py_slice data ((len data div count) * z)
                                        ((len data div count) * (z + 1)))
                     (py_range count))
         = take (nat (len data div count * count)) data"
proof -
  let ?n = "len data div count"
  have n0: "0 \<le> ?n" using assms by (simp add: len_def pos_imp_zdiv_nonneg_iff)
  have le: "?n * count \<le> len data"
  proof -
    have "0 \<le> len data mod count" using assms by simp
    moreover have "?n * count + len data mod count = len data" by simp
    ultimately show ?thesis by linarith
  qed
  have cnt: "int (nat count) = count" using assms by simp
  have le': "?n * int (nat count) \<le> len data" using le cnt by simp
  have le'': "nat ?n * nat count \<le> length data"
    using le n0 assms by (metis len_def nat_int nat_mono nat_mult_distrib)
  have eq: "nat (?n * count) = nat ?n * nat count"
    using n0 by (simp add: nat_mult_distrib)
  show ?thesis
    unfolding py_range_def eq
    by (simp only: slices_as_nat [OF n0 le'] concat_equal_slices [OF le''])
qed

lemma concat_butlast_snoc:
  "r \<noteq> [] \<Longrightarrow> concat (butlast r @ [last r @ t]) = concat r @ t"
  by (induction r) auto

lemma py_slice_from_rem:
  assumes "0 < count" and pos: "0 < len data mod count"
  shows "py_slice_from data (- (len data mod count))
         = drop (nat (len data div count * count)) data"
proof -
  have sum: "len data div count * count + len data mod count = len data" by simp
  have "0 \<le> len data div count * count"
    using assms(1) by (simp add: len_def pos_imp_zdiv_nonneg_iff)
  then have "max (- (len data mod count) + len data) 0 = len data div count * count"
    using sum by linarith
  with pos show ?thesis
    by (simp add: py_slice_from_def clamp_index_def)
qed

lemma split_round_trip:
  assumes "1 \<le> count"
  shows "\<exists>slices. generate_sharded_data count text = Inr slices
           \<and> len slices = count \<and> concat slices = text"
proof -
  let ?n = "len text div count"
  let ?r = "map (\<lambda>z. py_slice text (?n * z) (?n * (z + 1))) (py_range count)"
  have pos: "0 < count" using assms by simp
  have lr: "length ?r = nat count" by (simp add: py_range_def)
  have ne: "?r \<noteq> []" using lr pos by (metis length_0_conv nat_0_iff not_le)
  have cc: "concat ?r = take (nat (?n * count)) text"
    by (rule split_body_concat [OF pos])
  show ?thesis
  proof (cases "0 < len text mod count")
    case True
    let ?s = "butlast ?r @ [last ?r @ py_slice_from text (- (len text mod count))]"
    have "generate_sharded_data count text = Inr ?s"
      using True pos ne by (simp add: generate_sharded_data_def Let_def)
    moreover have "len ?s = count"
      using lr pos by (simp add: len_def)
    moreover have "concat ?s = text"
      unfolding concat_butlast_snoc [OF ne] py_slice_from_rem [OF pos True] cc
      by (rule append_take_drop_id)
    ultimately show ?thesis by blast
  next
    case False
    then have z: "len text mod count = 0" using pos
      by (smt (verit) pos_mod_sign)
    then have "?n * count = len text" by (metis add.right_neutral div_mult_mod_eq)
    then have "concat ?r = text" using cc by (simp add: len_def)
    moreover have "generate_sharded_data count text = Inr ?r"
      using z pos by (simp add: generate_sharded_data_def Let_def)
    moreover have "len ?r = count" using lr pos by (simp add: len_def)
    ultimately show ?thesis by blast
  qed
qed


section \<open>Facts about the string functions\<close>

lemma digit_char_is_digit: "d < 10 \<Longrightarrow> is_digit (digit_char d)"
  by (simp add: is_digit_def digit_char_def nth_Cons' )

lemma digit_val_digit_char: "d < 10 \<Longrightarrow> digit_val (digit_char d) = d"
proof -
  assume "d < 10"
  then have "d \<in> {0, 1, 2, 3, 4, 5, 6, 7, 8, 9}" by auto
  then show ?thesis
    by (auto simp: digit_val_def digit_char_def)
qed

lemma str_of_nat_digits: "c \<in> set (str_of_nat n) \<Longrightarrow> is_digit c"
proof (induction n rule: str_of_nat.induct)
  case (1 n)
  show ?case
  proof (cases "n < 10")
    case True
    with "1.prems" show ?thesis
      by (simp add: str_of_nat.simps [of n] digit_char_is_digit)
  next
    case False
    with "1.prems" "1.IH" show ?thesis
      by (auto simp: str_of_nat.simps [of n] digit_char_is_digit)
  qed
qed

lemma str_of_nat_nonempty: "str_of_nat n \<noteq> []"
  by (subst str_of_nat.simps) simp

lemma is_digit_not_special:
  "is_digit c \<Longrightarrow> c \<noteq> CHR ''-'' \<and> c \<noteq> CHR ''.'' \<and> c \<noteq> CHR ''_'' \<and> c \<noteq> CHR ''+'' \<and> \<not> is_space c"
  by (auto simp: is_digit_def is_space_def)

lemma digits_ok_all_digits:
  "d \<noteq> [] \<Longrightarrow> (\<And>c. c \<in> set d \<Longrightarrow> is_digit c) \<Longrightarrow> digits_ok d"
proof (induction d rule: digits_ok.induct)
  case 1
  then show ?case by simp
next
  case (2 c)
  then show ?case by simp
next
  case (3 c d r)
  have "is_digit d" using "3.prems"(2) by simp
  then have "d \<noteq> CHR ''_''" using is_digit_not_special by blast
  moreover have "digits_ok (d # r)"
    using "3.IH"(2) "3.prems" \<open>d \<noteq> CHR ''_''\<close> by simp
  ultimately show ?case using "3.prems"(2) by simp
qed

lemma digits_value_snoc:
  "c \<noteq> CHR ''_'' \<Longrightarrow> digits_value (d @ [c]) = 10 * digits_value d + digit_val c"
  by (simp add: digits_value_def)

lemma digits_value_str_of_nat: "digits_value (str_of_nat n) = n"
proof (induction n rule: str_of_nat.induct)
  case (1 n)
  show ?case
  proof (cases "n < 10")
    case True
    then show ?thesis
      using digits_value_snoc [of "digit_char n" "[]"] is_digit_not_special [OF digit_char_is_digit [OF True]]
      by (simp add: str_of_nat.simps [of n] digit_val_digit_char digits_value_def)
  next
    case False
    have m: "n mod 10 < 10" by simp
    have "digit_char (n mod 10) \<noteq> CHR ''_''"
      using is_digit_not_special [OF digit_char_is_digit [OF m]] by simp
    then show ?thesis
      using False "1.IH" by (simp add: str_of_nat.simps [of n] digits_value_snoc digit_val_digit_char)
  qed
qed

lemma parse_digits_str_of_nat: "parse_digits (str_of_nat n) = Inr (int n)"
  by (simp add: parse_digits_def digits_value_str_of_nat digits_ok_all_digits
      str_of_nat_nonempty str_of_nat_digits)

lemma strip_space_no_space:
  assumes "s \<noteq> []" "\<not> is_space (hd s)" "\<not> is_space (last s)"
  shows "strip_space s = s"
proof -
  have "dropWhile is_space s = s" using assms by (cases s) auto
  moreover have "dropWhile is_space (rev s) = rev s"
    using assms by (cases "rev s") (auto simp: last_rev [symmetric] hd_rev)
  ultimately show ?thesis by (simp add: strip_space_def)
qed

lemma str_of_nat_hd_last:
  "is_digit (hd (str_of_nat n))" "is_digit (last (str_of_nat n))"
  using str_of_nat_nonempty [of n] str_of_nat_digits [of _ n] by auto

lemma py_int_str_of_int: "py_int (str_of_int i) = Inr i"
proof (cases "i < 0")
  case True
  let ?d = "str_of_nat (nat (- i))"
  have "strip_space (CHR ''-'' # ?d) = CHR ''-'' # ?d"
    using str_of_nat_nonempty [of "nat (- i)"] str_of_nat_hd_last(2) [of "nat (- i)"]
      is_digit_not_special
    by (intro strip_space_no_space) (auto simp: is_space_def)
  with True show ?thesis
    by (simp add: py_int_def str_of_int_def parse_digits_str_of_nat)
next
  case False
  let ?d = "str_of_nat (nat i)"
  obtain c r where cr: "?d = c # r" using str_of_nat_nonempty [of "nat i"] by (cases ?d) auto
  have dc: "is_digit c" using str_of_nat_hd_last(1) [of "nat i"] cr by simp
  have "strip_space ?d = ?d"
    using str_of_nat_nonempty [of "nat i"] str_of_nat_hd_last [of "nat i"] is_digit_not_special
    by (intro strip_space_no_space) auto
  then show ?thesis
    using False cr dc is_digit_not_special [OF dc] parse_digits_str_of_nat [of "nat i"]
    by (simp add: py_int_def str_of_int_def)
qed

text \<open>
  What \<^verbatim>\<open>int\<close> takes for whitespace: a blank and a line feed around the digits
  are dropped, the unit separator \<open>0x1F\<close> is not.
\<close>

lemma py_int_whitespace:
  "py_int [CHR 0x20, CHR ''4'', CHR 0x0A] = Inr 4
   \<and> py_int [CHR 0x1F, CHR ''4''] = Inl ValueError
   \<and> py_int [CHR ''4'', CHR 0x1C] = Inl ValueError"
  by code_simp

lemma str_of_int_inj: "str_of_int i = str_of_int j \<Longrightarrow> i = j"
  by (metis py_int_str_of_int sum.inject(2))

lemma str_of_int_no_dash: "0 \<le> i \<Longrightarrow> \<not> py_in CHR ''-'' (str_of_int i)"
  using str_of_nat_digits is_digit_not_special by (auto simp: py_in_def str_of_int_def)

lemma str_of_int_no_dot: "\<not> py_in CHR ''.'' (str_of_int i)"
  using str_of_nat_digits is_digit_not_special by (auto simp: py_in_def str_of_int_def)

lemma split_on_nonempty: "split_on c s \<noteq> []"
  by (induction s) (auto split: list.splits)

lemma split_on_no_sep: "c \<notin> set p \<Longrightarrow> split_on c p = [p]"
  by (induction p) auto

lemma split_on_append: "c \<notin> set p \<Longrightarrow> split_on c (p @ c # r) = p # split_on c r"
  by (induction p) auto

lemma split_first_takeWhile: "split_first c s = takeWhile (\<lambda>x. x \<noteq> c) s"
  by (induction s) (auto simp: split_first_def split: list.splits)

lemma split_first_no_sep: "c \<notin> set p \<Longrightarrow> split_first c p = p"
  by (simp add: split_first_def split_on_no_sep)

lemma split_first_append: "c \<notin> set p \<Longrightarrow> split_first c (p @ c # r) = p"
  by (simp add: split_first_def split_on_append)

lemma split_first_no_sep_in: "c \<notin> set (split_first c s)"
  by (auto simp: split_first_takeWhile dest: set_takeWhileD)

section \<open>Loops, and the primary part of a handler\<close>

lemma for_each_invariant_on:
  assumes step: "\<And>x t t'. x \<in> A \<Longrightarrow> P t \<Longrightarrow> f x t = Return () t' \<Longrightarrow> P t'"
  shows "for_each xs f s = Return u s' \<Longrightarrow> set xs \<subseteq> A \<Longrightarrow> P s \<Longrightarrow> P s'"
proof (induction xs arbitrary: s)
  case Nil
  then show ?case by simp
next
  case (Cons x xs)
  from Cons.prems(1) obtain t where t: "f x s = Return () t" and r: "for_each xs f t = Return u s'"
    by (auto split: outcome.splits)
  have "P t" using step [of x s t] Cons.prems(2,3) t by simp
  then show ?case using Cons.IH [OF r] Cons.prems(2) by simp
qed

lemma for_each_invariant:
  assumes "for_each xs f s = Return u s'"
    and "P s"
    and "\<And>x t t'. x \<in> set xs \<Longrightarrow> P t \<Longrightarrow> f x t = Return () t' \<Longrightarrow> P t'"
  shows "P s'"
  using for_each_invariant_on [where A = "set xs" and P = P and f = f, OF assms(3) assms(1) _ assms(2)]
  by simp

lemma for_each_establishes_on:
  assumes inv: "\<And>x t t'. x \<in> A \<Longrightarrow> I t \<Longrightarrow> f x t = Return () t' \<Longrightarrow> I t'"
    and est: "\<And>x t t'. x \<in> A \<Longrightarrow> I t \<Longrightarrow> f x t = Return () t' \<Longrightarrow> Q x t'"
    and stab: "\<And>x y t t'. y \<in> A \<Longrightarrow> I t \<Longrightarrow> Q x t \<Longrightarrow> f y t = Return () t' \<Longrightarrow> Q x t'"
  shows "for_each xs f s = Return u s' \<Longrightarrow> set xs \<subseteq> A \<Longrightarrow> I s \<Longrightarrow> x \<in> set xs \<Longrightarrow> Q x s'"
proof (induction xs arbitrary: s)
  case Nil
  then show ?case by simp
next
  case (Cons y ys)
  from Cons.prems(1) obtain t where t: "f y s = Return () t" and r: "for_each ys f t = Return u s'"
    by (auto split: outcome.splits)
  have yA: "y \<in> A" and sub: "set ys \<subseteq> A" using Cons.prems(2) by auto
  have It: "I t" using inv [OF yA Cons.prems(3) t] .
  show ?case
  proof (cases "x \<in> set ys")
    case True
    then show ?thesis using Cons.IH [OF r sub It] by simp
  next
    case False
    then have xy: "x = y" using Cons.prems(4) by simp
    have Qt: "Q x t" using est [OF yA Cons.prems(3) t] xy by simp
    have "I s' \<and> Q x s'"
    proof (rule for_each_invariant_on [where P = "\<lambda>t. I t \<and> Q x t" and A = A, OF _ r sub])
      show "I t \<and> Q x t" using It Qt by simp
    next
      fix z t1 t2
      assume "z \<in> A" "I t1 \<and> Q x t1" "f z t1 = Return () t2"
      then show "I t2 \<and> Q x t2" using inv [of z t1 t2] stab [of z t1 x t2] by simp
    qed
    then show ?thesis by simp
  qed
qed

lemma for_each_establishes:
  assumes "for_each xs f s = Return u s'"
    and "I s"
    and inv: "\<And>x t t'. x \<in> set xs \<Longrightarrow> I t \<Longrightarrow> f x t = Return () t' \<Longrightarrow> I t'"
    and est: "\<And>x t t'. x \<in> set xs \<Longrightarrow> I t \<Longrightarrow> f x t = Return () t' \<Longrightarrow> Q x t'"
    and stab: "\<And>x y t t'. y \<in> set xs \<Longrightarrow> I t \<Longrightarrow> Q x t \<Longrightarrow> f y t = Return () t' \<Longrightarrow> Q x t'"
    and "x \<in> set xs"
  shows "Q x s'"
  using for_each_establishes_on [where A = "set xs" and I = I and Q = Q and f = f,
      OF inv est stab assms(1) _ assms(2) assms(6)]
  by simp

lemma for_each_unchanged:
  "(\<And>x. x \<in> set xs \<Longrightarrow> f x s = Return () s) \<Longrightarrow> for_each xs f s = Return () s"
  by (induction xs) auto

lemma and_then_Return:
  "and_then r f = Return v s' \<Longrightarrow> \<exists>u t. r = Return u t \<and> f u t = Return v s'"
  by (cases r) auto

lemma lift_Return: "lift r s = Return v s' \<Longrightarrow> r = Inr v \<and> s' = s"
  by (cases r) auto

lemma filter_update_dropped:
  "\<not> P k \<Longrightarrow> filter (\<lambda>(key, v). P key) (AList.update k v al) = filter (\<lambda>(key, v). P key) al"
  by (induction al) auto

lemma filter_delete_dropped:
  "\<not> P k \<Longrightarrow> filter (\<lambda>(key, v). P key) (AList.delete k al) = filter (\<lambda>(key, v). P key) al"
  by (induction al) auto

lemma map_of_filter_key:
  "P k \<Longrightarrow> map_of (filter (\<lambda>(key, v). P key) al) k = map_of al k"
  by (induction al) auto

lemma map_fst_filter_key:
  "map fst (filter (\<lambda>(key, v). P key) al) = filter P (map fst al)"
  by (induction al) auto

lemma get_shard_ids_primary_entries:
  "get_shard_ids s = sort (map fst (primary_entries s))"
  by (simp add: get_shard_ids_def primary_entries_def map_fst_filter_key)

lemma map_of_primary_entries:
  "\<not> py_in CHR ''-'' k \<Longrightarrow> map_of (mapping s) k = map_of (primary_entries s) k"
  by (simp add: primary_entries_def map_of_filter_key [where P = "\<lambda>k. \<not> py_in CHR ''-'' k"])

text \<open>
  A listing is a rearrangement of the names of the directory, whatever the table
  says; reading in text mode turns a carriage return, together with the line
  feed after it when there is one, into a line feed.
\<close>

lemma listed_example:
  "listed [([''0.txt'', ''0-1.txt''], [''0-1.txt'', ''0.txt''])] [''0.txt'', ''0-1.txt'']
     = [''0-1.txt'', ''0.txt'']
   \<and> listed [([''0.txt'', ''0-1.txt''], [''1.txt'', ''0.txt''])] [''0.txt'', ''0-1.txt'']
     = [''0.txt'', ''0-1.txt'']"
  by code_simp

lemma universal_newlines_example:
  "universal_newlines [CHR ''a'', CHR 0x0D, CHR 0x0A, CHR 0x0D, CHR ''b'', CHR 0x0A]
     = [CHR ''a'', CHR 0x0A, CHR 0x0A, CHR ''b'', CHR 0x0A]"
  by simp

lemma sort_listed: "sort (listed order names) = sort names"
  by (simp add: listed_def split: option.splits)

lemma set_listed [simp]: "set (listed order names) = set names"
  using sort_listed [of order names] by (metis set_sort)

lemma length_listed [simp]: "length (listed order names) = length names"
  using sort_listed [of order names] by (metis length_sort)

lemma sort_filter_listed [simp]:
  "sort (filter P (listed order names)) = sort (filter P names)"
  using sort_listed [of order names] by (metis filter_sort)

lemma file_content_primary_blobs:
  "\<not> py_in CHR ''-'' n \<Longrightarrow>
   file_content n s = (case primary_blobs s of None \<Rightarrow> Inl FileNotFoundError
      | Some d \<Rightarrow> (case map_of d n of None \<Rightarrow> Inl FileNotFoundError | Some c \<Rightarrow> Inr c))"
  by (simp add: file_content_def primary_blobs_def map_of_filter_key [where P = "\<lambda>k. \<not> py_in CHR ''-'' k"]
      split: option.splits)

lemma primary_files_okay_primaries:
  "primary_files_okay s =
     (case primary_blobs s of None \<Rightarrow> Inl FileNotFoundError
      | Some d \<Rightarrow>
         (if list_ex (\<lambda>(file, key). split_first CHR ''.'' file \<noteq> key)
               (zip (sort (map fst d)) (sort (map fst (primary_entries s))))
          then Inr False
          else Inr (length d = length (primary_entries s))))"
proof -
  have "length (filter (\<lambda>file. \<not> py_in CHR ''-'' file) (map fst d))
        = length (filter (\<lambda>(name, c). \<not> py_in CHR ''-'' name) d)" for d :: "(string \<times> string) list"
    by (simp add: map_fst_filter_key [symmetric])
  then show ?thesis
    by (simp add: primary_files_okay_def listdir_def primary_blobs_def Let_def
      get_shard_ids_primary_entries map_fst_filter_key split: option.splits)
qed

lemma same_primaries_refl: "same_primaries s s"
  by (simp add: same_primaries_def)

lemma same_primaries_trans: "same_primaries s t \<Longrightarrow> same_primaries t u \<Longrightarrow> same_primaries s u"
  by (simp add: same_primaries_def)

lemma same_primaries_get_shard_ids: "same_primaries s t \<Longrightarrow> get_shard_ids t = get_shard_ids s"
  by (simp add: same_primaries_def get_shard_ids_primary_entries)

lemma same_primaries_okay: "same_primaries s t \<Longrightarrow> primary_files_okay t = primary_files_okay s"
  unfolding same_primaries_def primary_files_okay_primaries by presburger

lemma same_primaries_lookup:
  "same_primaries s t \<Longrightarrow> \<not> py_in CHR ''-'' k \<Longrightarrow> map_of (mapping t) k = map_of (mapping s) k"
  by (simp add: same_primaries_def map_of_primary_entries)

lemma same_primaries_read:
  "same_primaries s t \<Longrightarrow> \<not> py_in CHR ''-'' n \<Longrightarrow> file_content n t = file_content n s"
  by (simp add: same_primaries_def file_content_primary_blobs)

section \<open>What a synchronisation leaves\<close>

lemma py_in_blob [simp]: "py_in CHR ''-'' (blob k) = py_in CHR ''-'' k"
  by (auto simp: py_in_def blob_def)

lemma py_in_replica_key [simp]: "py_in CHR ''-'' (replica_key p l)"
  by (simp add: py_in_def replica_key_def)

lemma blob_inj [simp]: "blob a = blob b \<longleftrightarrow> a = b"
  by (simp add: blob_def)

lemma split_first_replica_key:
  "\<not> py_in CHR ''-'' p \<Longrightarrow> split_first CHR ''-'' (replica_key p l) = p"
  by (simp add: replica_key_def py_in_def split_first_append)

lemma replica_key_eq:
  "\<not> py_in CHR ''-'' p \<Longrightarrow> \<not> py_in CHR ''-'' p' \<Longrightarrow> replica_key p l = replica_key p' l' \<Longrightarrow> p = p'"
  by (metis split_first_replica_key)

lemma refresh_replica_Return:
  assumes "refresh_replica k s = Return u t"
  obtains v where "map_of (mapping s) (split_first CHR ''-'' k) = Some v"
    and "t = s\<lparr>mapping := AList.update k v (mapping s)\<rparr>"
  using assms by (auto simp: refresh_replica_def Let_def split: option.splits)

lemma regenerate_replica_Return:
  assumes "regenerate_replica l p s = Return u t"
  obtains v c d where "map_of (mapping s) p = Some v" and "data_dir s = Some d"
    and "map_of d (blob p) = Some c"
    and "t = s\<lparr>mapping := AList.update (replica_key p l) v (mapping s),
                data_dir := Some (AList.update (blob (replica_key p l)) c d)\<rparr>"
  using assms
  by (auto simp: regenerate_replica_def copyfile_def file_content_def write_file_def
      split: option.splits sum.splits)

lemma same_primaries_update_mapping:
  "py_in CHR ''-'' k \<Longrightarrow> same_primaries s (s\<lparr>mapping := AList.update k v (mapping s)\<rparr>)"
  by (simp add: same_primaries_def primary_entries_def primary_blobs_def
      filter_update_dropped [where P = "\<lambda>k. \<not> py_in CHR ''-'' k"])

lemma refresh_replica_same_primaries:
  "py_in CHR ''-'' k \<Longrightarrow> refresh_replica k s = Return u t \<Longrightarrow> same_primaries s t"
  by (erule refresh_replica_Return) (simp add: same_primaries_update_mapping)

lemma regenerate_replica_same_primaries:
  assumes "regenerate_replica l p s = Return u t"
  shows "same_primaries s t"
proof -
  from assms obtain v c d where d: "data_dir s = Some d"
    and t: "t = s\<lparr>mapping := AList.update (replica_key p l) v (mapping s),
                data_dir := Some (AList.update (blob (replica_key p l)) c d)\<rparr>"
    by (rule regenerate_replica_Return)
  show ?thesis
    unfolding t
    by (simp add: same_primaries_def primary_entries_def primary_blobs_def d
        filter_update_dropped [where P = "\<lambda>k. \<not> py_in CHR ''-'' k"])
qed

lemma regenerate_replica_matches:
  assumes p: "\<not> py_in CHR ''-'' p"
    and r: "regenerate_replica l p s = Return u t"
  shows "replica_matches t p l"
proof -
  from r obtain v c d where v: "map_of (mapping s) p = Some v" and d: "data_dir s = Some d"
    and c: "map_of d (blob p) = Some c"
    and t: "t = s\<lparr>mapping := AList.update (replica_key p l) v (mapping s),
                data_dir := Some (AList.update (blob (replica_key p l)) c d)\<rparr>"
    by (rule regenerate_replica_Return)
  have ne: "replica_key p l \<noteq> p" using p py_in_replica_key [of p l] by metis
  show ?thesis
    unfolding t replica_matches_def
    using v c ne by (simp add: update_conv' file_content_def)
qed

lemma regenerate_replica_keeps_match:
  assumes p: "\<not> py_in CHR ''-'' p" and p': "\<not> py_in CHR ''-'' p'"
    and m: "replica_matches s p l"
    and r: "regenerate_replica l' p' s = Return u t"
  shows "replica_matches t p l"
proof -
  from r obtain v c d where v: "map_of (mapping s) p' = Some v" and d: "data_dir s = Some d"
    and c: "map_of d (blob p') = Some c"
    and t: "t = s\<lparr>mapping := AList.update (replica_key p' l') v (mapping s),
                data_dir := Some (AList.update (blob (replica_key p' l')) c d)\<rparr>"
    by (rule regenerate_replica_Return)
  have ne: "replica_key p' l' \<noteq> p" using p py_in_replica_key [of p' l'] by metis
  show ?thesis
  proof (cases "replica_key p' l' = replica_key p l")
    case True
    then have "p' = p" using replica_key_eq [OF p' p] by simp
    then show ?thesis
      using m v c d ne True unfolding t replica_matches_def
      by (simp add: update_conv' file_content_def split: option.splits)
  next
    case False
    then show ?thesis
      using m d ne unfolding t replica_matches_def
      by (simp add: update_conv' file_content_def split: option.splits sum.splits)
  qed
qed

lemma split_on_parts_no_sep: "p \<in> set (split_on c s) \<Longrightarrow> c \<notin> set p"
proof (induction s arbitrary: p)
  case Nil
  then show ?case by simp
next
  case (Cons x xs)
  then show ?case
    by (cases "split_on c xs") (auto split: if_splits simp: split_on_nonempty)
qed

lemma py_nth_in_set: "py_nth xs i = Inr x \<Longrightarrow> x \<in> set xs"
  by (auto simp: py_nth_def Let_def len_def split: if_splits)

lemma set_strip_space: "set (strip_space s) \<subseteq> set s"
  unfolding strip_space_def
  by (metis set_dropWhileD set_rev subsetI)

lemma parse_digits_nonneg: "parse_digits d = Inr l \<Longrightarrow> 0 \<le> l"
  by (auto simp: parse_digits_def split: if_splits)

lemma py_int_nonneg:
  assumes "CHR ''-'' \<notin> set t" "py_int t = Inr l"
  shows "0 \<le> l"
proof -
  have "CHR ''-'' \<notin> set (strip_space t)" using assms(1) set_strip_space by blast
  then show ?thesis
    using assms(2) parse_digits_nonneg
    by (cases "strip_space t") (auto simp: py_int_def split: if_splits)
qed

lemma int_part_nonneg: "int_part CHR ''-'' i k = Inr l \<Longrightarrow> 0 \<le> l"
proof -
  assume a: "int_part CHR ''-'' i k = Inr l"
  then obtain part where p: "py_nth (split_on CHR ''-'' k) i = Inr part" and l: "py_int part = Inr l"
    by (cases "py_nth (split_on CHR ''-'' k) i") (auto simp: int_part_def)
  have "CHR ''-'' \<notin> set part" using p py_nth_in_set split_on_parts_no_sep by fastforce
  then show ?thesis using l py_int_nonneg by blast
qed

lemma str_of_int_dash_free: "0 \<le> l \<Longrightarrow> CHR ''-'' \<notin> set (str_of_int l)"
  using str_of_int_no_dash by (simp add: py_in_def)

lemma int_part_replica_key:
  assumes "\<not> py_in CHR ''-'' p" "0 \<le> l"
  shows "int_part CHR ''-'' 1 (replica_key p l) = Inr l"
proof -
  have "split_on CHR ''-'' (replica_key p l) = [p, str_of_int l]"
    using assms str_of_int_dash_free [OF assms(2)]
    by (simp add: replica_key_def py_in_def split_on_append split_on_no_sep)
  then show ?thesis
    by (simp add: int_part_def py_nth_def len_def py_int_str_of_int)
qed

lemma split_on_length_ge2: "c \<in> set s \<Longrightarrow> 2 \<le> length (split_on c s)"
proof (induction s)
  case Nil
  then show ?case by simp
next
  case (Cons x xs)
  show ?case
  proof (cases "x = c")
    case True
    then show ?thesis using split_on_nonempty [of c xs] by (cases "split_on c xs") auto
  next
    case False
    then have "c \<in> set xs" using Cons.prems by simp
    then show ?thesis using Cons.IH False by (auto split: list.splits)
  qed
qed

lemma py_nth_split_1: "py_in c f \<Longrightarrow> \<exists>x. py_nth (split_on c f) 1 = Inr x"
  using split_on_length_ge2 [of c f] by (auto simp: py_in_def py_nth_def len_def)

lemma try_filter_total:
  "(\<And>x. x \<in> set xs \<Longrightarrow> \<exists>b. f x = Inr b) \<Longrightarrow> \<exists>ys. try_filter f xs = Inr ys"
proof (induction xs)
  case Nil
  then show ?case by simp
next
  case (Cons x xs)
  then obtain b ys where "f x = Inr b" "try_filter f xs = Inr ys" by force
  then show ?case by simp
qed

lemma try_filter_all_false:
  "try_filter f xs = Inr ys \<Longrightarrow> (\<And>x b. x \<in> set xs \<Longrightarrow> f x = Inr b \<Longrightarrow> \<not> b) \<Longrightarrow> ys = []"
proof (induction xs arbitrary: ys)
  case Nil
  then show ?case by simp
next
  case (Cons x xs)
  then show ?case by (fastforce split: sum.splits if_splits)
qed

lemma then_e_Inr: "then_e r f = Inr v \<longleftrightarrow> (\<exists>x. r = Inr x \<and> f x = Inr v)"
  by (cases r) auto

lemma then_e_Inl: "then_e r f = Inl e \<longleftrightarrow> r = Inl e \<or> (\<exists>x. r = Inr x \<and> f x = Inl e)"
  by (cases r) auto

lemma rep_level_has_same_keys_True:
  assumes "rep_level_has_same_keys rep_keys primary_keys level s = Inr True"
  shows "primary_keys = []"
proof (rule ccontr)
  assume ne: "primary_keys \<noteq> []"
  from assms obtain all_files level_files where
    tf: "try_filter (\<lambda>filename. then_e (py_nth (split_on CHR ''-'' filename) 1)
              (\<lambda>part. Inr (py_eq_int_str level part)))
            (filter (\<lambda>filename. py_in CHR ''-'' filename) all_files) = Inr level_files"
    and ln: "length level_files = length primary_keys"
    by (auto simp: rep_level_has_same_keys_def Let_def then_e_Inr split: if_splits)
  have "level_files = []"
    by (rule try_filter_all_false [OF tf]) (auto simp: py_eq_int_str_def then_e_Inr)
  with ln ne show False by simp
qed

lemma rep_level_has_same_keys_total:
  assumes "data_dir s \<noteq> None"
  shows "\<exists>b. rep_level_has_same_keys rep_keys primary_keys level s = Inr b"
proof -
  from assms obtain d where d: "data_dir s = Some d" by auto
  let ?files = "filter (\<lambda>filename. py_in CHR ''-'' filename) (listed (dir_order s) (map fst d))"
  have "\<exists>ys. try_filter (\<lambda>filename. then_e (py_nth (split_on CHR ''-'' filename) 1)
              (\<lambda>part. Inr (py_eq_int_str level part))) ?files = Inr ys"
  proof (rule try_filter_total)
    fix x assume "x \<in> set ?files"
    then have "py_in CHR ''-'' x" by simp
    then obtain part where "py_nth (split_on CHR ''-'' x) 1 = Inr part"
      using py_nth_split_1 by blast
    then show "\<exists>b. then_e (py_nth (split_on CHR ''-'' x) 1)
              (\<lambda>part. Inr (py_eq_int_str level part)) = Inr b" by simp
  qed
  then show ?thesis
    by (auto simp: rep_level_has_same_keys_def Let_def listdir_def d)
qed

lemma add_to_level_keys: "fst ` set (add_to_level l k acc) = insert l (fst ` set acc)"
  by (auto simp: dom_update split: option.splits)

lemma collect_levels_Inr:
  "collect_levels ks acc = Inr d \<Longrightarrow>
     fst ` set d = fst ` set acc \<union> {l. \<exists>k \<in> set ks. int_part CHR ''-'' 1 k = Inr l}
     \<and> (\<forall>k \<in> set ks. \<exists>l. int_part CHR ''-'' 1 k = Inr l)"
proof (induction ks arbitrary: acc)
  case Nil
  then show ?case by simp
next
  case (Cons k ks)
  from Cons.prems obtain l where l: "int_part CHR ''-'' 1 k = Inr l"
    and r: "collect_levels ks (add_to_level l k acc) = Inr d"
    by (auto split: sum.splits)
  from Cons.IH [OF r] l show ?case
    by (auto simp: add_to_level_keys simp del: add_to_level.simps)
qed

lemma collect_levels_total:
  "(\<And>k. k \<in> set ks \<Longrightarrow> \<exists>l. int_part CHR ''-'' 1 k = Inr l) \<Longrightarrow> \<exists>d. collect_levels ks acc = Inr d"
proof (induction ks arbitrary: acc)
  case Nil
  then show ?case by simp
next
  case (Cons k ks)
  then obtain l where l: "int_part CHR ''-'' 1 k = Inr l" by force
  have "\<exists>d. collect_levels ks (add_to_level l k acc) = Inr d"
    using Cons.IH Cons.prems by simp
  with l show ?case by (simp del: add_to_level.simps)
qed

lemma set_get_replication_ids:
  "set (get_replication_ids s) = {k \<in> fst ` set (mapping s). py_in CHR ''-'' k}"
  by (auto simp: get_replication_ids_def)

lemma set_get_shard_ids:
  "set (get_shard_ids s) = {k \<in> fst ` set (mapping s). \<not> py_in CHR ''-'' k}"
  by (auto simp: get_shard_ids_def)

lemma and_then_ReturnE:
  assumes "and_then r f = Return v s'"
  obtains u t where "r = Return u t" "f u t = Return v s'"
  using assms by (cases r) auto

lemma lift_ReturnE:
  assumes "lift r s = Return v s'"
  obtains "r = Inr v" "s' = s"
  using assms by (cases r) auto

lemma update_replicated_levels_Return:
  assumes "update_replicated_levels s = Return u s'"
  obtains s1 levels s3 where
    "for_each (get_replication_ids s) refresh_replica s = Return () s1"
    "create_replication_dict s1 = Inr levels"
    "for_each levels (reconcile_level (get_shard_ids s1)) s1 = Return () s3"
    "s' = write_map s3"
proof -
  from assms obtain u1 s1 where
    a: "for_each (get_replication_ids s) refresh_replica s = Return u1 s1"
    and b: "and_then (lift (create_replication_dict s1) s1) (\<lambda>replications s.
          and_then (for_each replications (reconcile_level (get_shard_ids s1)) s) (\<lambda>u s.
          Return () (write_map s))) = Return u s'"
    unfolding update_replicated_levels_def Let_def by (rule and_then_ReturnE)
  from b obtain levels t where
    c: "lift (create_replication_dict s1) s1 = Return levels t"
    and d: "and_then (for_each levels (reconcile_level (get_shard_ids s1)) t) (\<lambda>u s.
          Return () (write_map s)) = Return u s'"
    by (rule and_then_ReturnE)
  from c have c': "create_replication_dict s1 = Inr levels" and t: "t = s1"
    by (rule lift_ReturnE, simp)+
  from d obtain u3 s3 where
    e: "for_each levels (reconcile_level (get_shard_ids s1)) t = Return u3 s3"
    and f: "Return () (write_map s3) = Return u s'"
    by (rule and_then_ReturnE)
  show ?thesis
    using that [of s1 levels s3] a c' e f t by simp
qed

lemma reconcile_level_Return:
  assumes "reconcile_level P (l, ks) s = Return u s'"
  obtains same where "rep_level_has_same_keys ks P l s = Inr same"
    and "same \<longrightarrow> s' = s"
    and "\<not> same \<longrightarrow> for_each P (regenerate_replica l) s = Return () s'"
proof -
  from assms obtain same t where
    a: "lift (rep_level_has_same_keys ks P l s) s = Return same t"
    and b: "(if \<not> same then for_each P (regenerate_replica l) t else Return () t) = Return u s'"
    unfolding reconcile_level_def prod.case by (rule and_then_ReturnE)
  from a have same: "rep_level_has_same_keys ks P l s = Inr same" and t: "t = s"
    by (rule lift_ReturnE, simp)+
  show ?thesis
    using that [of same] same b t by (cases same) auto
qed

lemma reconcile_level_invariant:
  assumes step: "\<And>p t t'. p \<in> set P \<Longrightarrow> Pr t \<Longrightarrow> regenerate_replica l p t = Return () t' \<Longrightarrow> Pr t'"
    and r: "reconcile_level P (l, ks) s = Return u s'"
    and s: "Pr s"
  shows "Pr s'"
proof -
  from r obtain same where
    "rep_level_has_same_keys ks P l s = Inr same"
    and same: "same \<longrightarrow> s' = s"
    and fe: "\<not> same \<longrightarrow> for_each P (regenerate_replica l) s = Return () s'"
    by (rule reconcile_level_Return)
  show ?thesis
  proof (cases same)
    case True
    with same s show ?thesis by simp
  next
    case False
    show ?thesis
      using for_each_invariant [where P = Pr, OF fe [rule_format, OF False] s] step by blast
  qed
qed

lemma reconcile_level_matches:
  assumes P: "\<And>p. p \<in> set P \<Longrightarrow> \<not> py_in CHR ''-'' p"
    and r: "reconcile_level P (l, ks) s = Return u s'"
    and p: "p \<in> set P"
  shows "replica_matches s' p l"
proof -
  from r obtain same where
    same: "rep_level_has_same_keys ks P l s = Inr same"
    and "same \<longrightarrow> s' = s"
    and fe: "\<not> same \<longrightarrow> for_each P (regenerate_replica l) s = Return () s'"
    by (rule reconcile_level_Return)
  have ns: "\<not> same" using rep_level_has_same_keys_True [of ks P l s] same p by auto
  have "p \<in> set P \<longrightarrow> replica_matches s' p l"
  proof (rule for_each_establishes [OF fe [rule_format, OF ns], where I = "\<lambda>t. True"
        and Q = "\<lambda>p t. p \<in> set P \<longrightarrow> replica_matches t p l"])
    show True ..
    show "p \<in> set P" by (rule p)
  next
    fix x t t' assume "x \<in> set P" "regenerate_replica l x t = Return () t'"
    then show "x \<in> set P \<longrightarrow> replica_matches t' x l"
      using regenerate_replica_matches [of x l t "()" t'] P [of x] by simp
  next
    fix x y t t'
    assume "y \<in> set P" "x \<in> set P \<longrightarrow> replica_matches t x l"
      "regenerate_replica l y t = Return () t'"
    then show "x \<in> set P \<longrightarrow> replica_matches t' x l"
      using regenerate_replica_keeps_match [of x y t l l "()" t'] P [of x] P [of y] by simp
  qed simp
  with p show ?thesis by simp
qed

lemma keys_update_present:
  "k \<in> fst ` set al \<Longrightarrow> map fst (AList.update k v al) = map fst al"
  by (simp add: update_keys)

lemma refresh_loop_frame:
  assumes fe: "for_each (get_replication_ids s) refresh_replica s = Return u s1"
  shows "same_primaries s s1 \<and> map fst (mapping s1) = map fst (mapping s)
         \<and> data_dir s1 = data_dir s \<and> mapfile s1 = mapfile s"
proof (rule for_each_invariant [OF fe])
  show "same_primaries s s \<and> map fst (mapping s) = map fst (mapping s)
         \<and> data_dir s = data_dir s \<and> mapfile s = mapfile s"
    by (simp add: same_primaries_refl)
next
  fix k t t'
  assume k: "k \<in> set (get_replication_ids s)"
    and inv: "same_primaries s t \<and> map fst (mapping t) = map fst (mapping s)
         \<and> data_dir t = data_dir s \<and> mapfile t = mapfile s"
    and r: "refresh_replica k t = Return () t'"
  from k have dash: "py_in CHR ''-'' k" and kin: "k \<in> fst ` set (mapping s)"
    by (simp_all add: set_get_replication_ids)
  from r obtain v where t': "t' = t\<lparr>mapping := AList.update k v (mapping t)\<rparr>"
    by (rule refresh_replica_Return)
  have kt: "k \<in> fst ` set (mapping t)" using kin inv by (metis set_map)
  have "same_primaries t t'" using refresh_replica_same_primaries [OF dash r] .
  then have "same_primaries s t'" using inv same_primaries_trans by blast
  moreover have "map fst (mapping t') = map fst (mapping s)"
    using inv keys_update_present [OF kt] by (simp add: t')
  ultimately show "same_primaries s t' \<and> map fst (mapping t') = map fst (mapping s)
         \<and> data_dir t' = data_dir s \<and> mapfile t' = mapfile s"
    using inv by (simp add: t')
qed

lemma refresh_replica_meta:
  assumes y: "py_in CHR ''-'' y"
    and r: "refresh_replica y t = Return () t'"
    and q: "x = y \<or> map_of (mapping t) x = map_of (mapping t) (split_first CHR ''-'' x)"
  shows "map_of (mapping t') x = map_of (mapping t') (split_first CHR ''-'' x)"
proof -
  from r obtain v where v: "map_of (mapping t) (split_first CHR ''-'' y) = Some v"
    and t': "t' = t\<lparr>mapping := AList.update y v (mapping t)\<rparr>"
    by (rule refresh_replica_Return)
  have ne: "split_first CHR ''-'' x \<noteq> y"
    using y split_first_no_sep_in [of "CHR ''-''" x] by (auto simp: py_in_def)
  show ?thesis
    using q v ne by (auto simp: t' update_conv')
qed

lemma refresh_loop_meta:
  assumes fe: "for_each (get_replication_ids s) refresh_replica s = Return u s1"
  shows "meta_refreshed s1"
proof -
  have "map_of (mapping s1) k = map_of (mapping s1) (split_first CHR ''-'' k)"
    if k: "k \<in> set (get_replication_ids s)" for k
  proof (rule for_each_establishes [OF fe, where I = "\<lambda>t. True"
        and Q = "\<lambda>k t. map_of (mapping t) k = map_of (mapping t) (split_first CHR ''-'' k)"])
    show True ..
    show "k \<in> set (get_replication_ids s)" by (rule k)
  next
    fix x t t'
    assume "x \<in> set (get_replication_ids s)" "refresh_replica x t = Return () t'"
    then show "map_of (mapping t') x = map_of (mapping t') (split_first CHR ''-'' x)"
      using refresh_replica_meta [of x t t' x] by (simp add: set_get_replication_ids)
  next
    fix x y t t'
    assume "y \<in> set (get_replication_ids s)"
      "map_of (mapping t) x = map_of (mapping t) (split_first CHR ''-'' x)"
      "refresh_replica y t = Return () t'"
    then show "map_of (mapping t') x = map_of (mapping t') (split_first CHR ''-'' x)"
      using refresh_replica_meta [of y t t' x] by (simp add: set_get_replication_ids)
  qed simp
  moreover have "fst ` set (mapping s1) = fst ` set (mapping s)"
    using refresh_loop_frame [OF fe] by (metis set_map)
  ultimately show ?thesis
    by (simp add: meta_refreshed_def set_get_replication_ids)
qed

lemma regenerate_replica_keys:
  assumes "regenerate_replica l p t = Return u t'"
  shows "fst ` set (mapping t') = insert (replica_key p l) (fst ` set (mapping t))"
proof -
  from assms obtain v c d where
    "t' = t\<lparr>mapping := AList.update (replica_key p l) v (mapping t),
                data_dir := Some (AList.update (blob (replica_key p l)) c d)\<rparr>"
    by (rule regenerate_replica_Return)
  then show ?thesis by (simp add: dom_update)
qed

lemma regenerate_replica_lookup:
  assumes "regenerate_replica l p t = Return u t'"
  shows "map_of (mapping t') k
         = (if k = replica_key p l then map_of (mapping t) p else map_of (mapping t) k)"
proof -
  from assms obtain v c d where "map_of (mapping t) p = Some v"
    "t' = t\<lparr>mapping := AList.update (replica_key p l) v (mapping t),
                data_dir := Some (AList.update (blob (replica_key p l)) c d)\<rparr>"
    by (rule regenerate_replica_Return)
  then show ?thesis by (simp add: update_conv')
qed

lemma meta_refreshedD:
  "meta_refreshed t \<Longrightarrow> k \<in> fst ` set (mapping t) \<Longrightarrow> py_in CHR ''-'' k \<Longrightarrow>
     map_of (mapping t) k = map_of (mapping t) (split_first CHR ''-'' k)"
  unfolding meta_refreshed_def by blast

lemma levels_withinD:
  "levels_within L t \<Longrightarrow> k \<in> fst ` set (mapping t) \<Longrightarrow> py_in CHR ''-'' k \<Longrightarrow>
     \<exists>l \<in> L. int_part CHR ''-'' 1 k = Inr l"
  unfolding levels_within_def by blast

lemma regenerate_replica_keeps_meta:
  assumes p: "\<not> py_in CHR ''-'' p"
    and m: "meta_refreshed t"
    and r: "regenerate_replica l p t = Return u t'"
  shows "meta_refreshed t'"
  unfolding meta_refreshed_def
proof (intro ballI impI)
  fix k assume k: "k \<in> fst ` set (mapping t')" and dash: "py_in CHR ''-'' k"
  have ne: "split_first CHR ''-'' k \<noteq> replica_key p l"
    using split_first_no_sep_in [of "CHR ''-''" k] py_in_replica_key [of p l]
    by (auto simp: py_in_def)
  show "map_of (mapping t') k = map_of (mapping t') (split_first CHR ''-'' k)"
  proof (cases "k = replica_key p l")
    case True
    then show ?thesis
      using p ne by (simp add: regenerate_replica_lookup [OF r] split_first_replica_key)
  next
    case False
    then have "k \<in> fst ` set (mapping t)" using k regenerate_replica_keys [OF r] by simp
    then show ?thesis
      using meta_refreshedD [OF m _ dash] False ne by (simp add: regenerate_replica_lookup [OF r])
  qed
qed

lemma regenerate_replica_keeps_levels:
  assumes p: "\<not> py_in CHR ''-'' p" and l: "0 \<le> l" "l \<in> L"
    and m: "levels_within L t"
    and r: "regenerate_replica l p t = Return u t'"
  shows "levels_within L t'"
  unfolding levels_within_def
proof (intro ballI impI)
  fix k assume k: "k \<in> fst ` set (mapping t')" and dash: "py_in CHR ''-'' k"
  show "\<exists>l \<in> L. int_part CHR ''-'' 1 k = Inr l"
  proof (cases "k = replica_key p l")
    case True
    then show ?thesis using int_part_replica_key [OF p l(1)] l(2) by blast
  next
    case False
    then have "k \<in> fst ` set (mapping t)" using k regenerate_replica_keys [OF r] by simp
    then show ?thesis using levels_withinD [OF m _ dash] by simp
  qed
qed

lemma reconcile_loop_invariant:
  assumes step: "\<And>l p t t'. l \<in> fst ` set levels \<Longrightarrow> p \<in> set P \<Longrightarrow> Pr t \<Longrightarrow>
                   regenerate_replica l p t = Return () t' \<Longrightarrow> Pr t'"
    and fe: "for_each levels (reconcile_level P) s = Return u s'"
    and s: "Pr s"
  shows "Pr s'"
proof (rule for_each_invariant [where P = Pr, OF fe s])
  fix lk t t'
  assume lk: "lk \<in> set levels" and t: "Pr t" and r: "reconcile_level P lk t = Return () t'"
  obtain l ks where eq: "lk = (l, ks)" by (cases lk)
  have l: "l \<in> fst ` set levels" using lk eq by force
  show "Pr t'"
    using reconcile_level_invariant [where Pr = Pr, OF _ r [unfolded eq] t] step [OF l]
    by blast
qed

lemma reconcile_loop_matches:
  assumes P: "\<And>p. p \<in> set P \<Longrightarrow> \<not> py_in CHR ''-'' p"
    and fe: "for_each levels (reconcile_level P) s = Return u s'"
    and l: "l \<in> fst ` set levels" and p: "p \<in> set P"
  shows "replica_matches s' p l"
proof -
  from l obtain ks where lk: "(l, ks) \<in> set levels" by auto
  have "replica_matches s' p (fst (l, ks))"
  proof (rule for_each_establishes [OF fe, where I = "\<lambda>t. True"
        and Q = "\<lambda>lk t. replica_matches t p (fst lk)"])
    show True ..
    show "(l, ks) \<in> set levels" by (rule lk)
    show "\<And>x t t'. True" ..
  next
    fix x t t'
    assume r: "reconcile_level P x t = Return () t'"
    obtain a b where x: "x = (a, b)" by (cases x)
    show "replica_matches t' p (fst x)"
      using reconcile_level_matches [OF P r [unfolded x] p] x by simp
  next
    fix x y t t'
    assume m: "replica_matches t p (fst x)" and r: "reconcile_level P y t = Return () t'"
    obtain a b where y: "y = (a, b)" by (cases y)
    show "replica_matches t' p (fst x)"
    proof (rule reconcile_level_invariant [where Pr = "\<lambda>t. replica_matches t p (fst x)",
          OF _ r [unfolded y] m])
      fix q t1 t2
      assume "q \<in> set P" "replica_matches t1 p (fst x)" "regenerate_replica a q t1 = Return () t2"
      then show "replica_matches t2 p (fst x)"
        using regenerate_replica_keeps_match [of p q t1 "fst x" a "()" t2] P [OF p] P [of q]
        by simp
    qed
  qed
  then show ?thesis by simp
qed

lemma write_map_simps [simp]:
  "mapping (write_map s) = mapping s" "data_dir (write_map s) = data_dir s"
  "mapfile (write_map s) = Some (mapping s)"
  "last_char_position (write_map s) = last_char_position s"
  "replication_level (write_map s) = replication_level s"
  "dir_order (write_map s) = dir_order s"
  by (simp_all add: write_map_def)

lemma write_map_same_primaries: "same_primaries s (write_map s)"
  by (simp add: same_primaries_def primary_entries_def primary_blobs_def)

lemma write_map_file_content [simp]: "file_content n (write_map s) = file_content n s"
  by (simp add: file_content_def)

lemma write_map_replica_matches: "replica_matches (write_map s) p l = replica_matches s p l"
  by (simp add: replica_matches_def split: sum.splits)

lemma write_map_meta_refreshed: "meta_refreshed (write_map s) = meta_refreshed s"
  by (simp add: meta_refreshed_def)

lemma write_map_get_shard_ids: "get_shard_ids (write_map s) = get_shard_ids s"
  by (simp add: get_shard_ids_def)

lemma update_replicated_levels_reconciles:
  assumes "update_replicated_levels s = Return u s'"
  shows "same_primaries s s' \<and> reconciled s'"
proof -
  from assms obtain s1 levels s3 where
    st1: "for_each (get_replication_ids s) refresh_replica s = Return () s1"
    and st2: "create_replication_dict s1 = Inr levels"
    and st3: "for_each levels (reconcile_level (get_shard_ids s1)) s1 = Return () s3"
    and s': "s' = write_map s3"
    by (rule update_replicated_levels_Return)
  let ?P = "get_shard_ids s1"
  let ?L = "fst ` set levels"
  have P: "\<not> py_in CHR ''-'' p" if "p \<in> set ?P" for p
    using that by (simp add: set_get_shard_ids)
  have f1: "same_primaries s s1" using refresh_loop_frame [OF st1] by simp
  have m1: "meta_refreshed s1" by (rule refresh_loop_meta [OF st1])
  have cl: "collect_levels (get_replication_ids s1) [] = Inr levels"
    using st2 by (simp add: create_replication_dict_def)
  have L: "?L = {l. \<exists>k \<in> set (get_replication_ids s1). int_part CHR ''-'' 1 k = Inr l}"
    and parsed: "\<forall>k \<in> set (get_replication_ids s1). \<exists>l. int_part CHR ''-'' 1 k = Inr l"
    using collect_levels_Inr [OF cl] by simp_all
  have Lpos: "0 \<le> l" if "l \<in> ?L" for l
    using that int_part_nonneg unfolding L by blast
  have lw1: "levels_within ?L s1"
    unfolding levels_within_def
  proof (intro ballI impI)
    fix k assume "k \<in> fst ` set (mapping s1)" "py_in CHR ''-'' k"
    then have k: "k \<in> set (get_replication_ids s1)" by (simp add: set_get_replication_ids)
    then obtain l where l: "int_part CHR ''-'' 1 k = Inr l" using parsed by blast
    then have "l \<in> ?L" unfolding L using k by blast
    with l show "\<exists>l \<in> ?L. int_part CHR ''-'' 1 k = Inr l" by blast
  qed
  have f3: "same_primaries s1 s3"
  proof (rule reconcile_loop_invariant [where Pr = "same_primaries s1", OF _ st3])
    show "same_primaries s1 s1" by (rule same_primaries_refl)
  next
    fix l p t t'
    assume "same_primaries s1 t" "regenerate_replica l p t = Return () t'"
    then show "same_primaries s1 t'"
      using regenerate_replica_same_primaries same_primaries_trans by blast
  qed
  have m3: "meta_refreshed s3"
  proof (rule reconcile_loop_invariant [where Pr = meta_refreshed, OF _ st3 m1])
    fix l p t t'
    assume "p \<in> set ?P" "meta_refreshed t" "regenerate_replica l p t = Return () t'"
    then show "meta_refreshed t'" using regenerate_replica_keeps_meta P by blast
  qed
  have lw3: "levels_within ?L s3"
  proof (rule reconcile_loop_invariant [where Pr = "levels_within ?L", OF _ st3 lw1])
    fix l p t t'
    assume "l \<in> ?L" "p \<in> set ?P" "levels_within ?L t" "regenerate_replica l p t = Return () t'"
    then show "levels_within ?L t'"
      using regenerate_replica_keeps_levels [of p l ?L t "()" t'] P Lpos by simp
  qed
  have ids3: "get_shard_ids s3 = ?P" by (rule same_primaries_get_shard_ids [OF f3])
  have match: "replica_matches s3 p l" if "l \<in> ?L" "p \<in> set ?P" for l p
    using reconcile_loop_matches [OF P st3 that] by simp
  have "same_primaries s s'"
    unfolding s' using f1 f3 write_map_same_primaries same_primaries_trans by blast
  moreover have "reconciled s'"
    unfolding reconciled_def s' write_map_meta_refreshed write_map_replica_matches
      write_map_get_shard_ids ids3
  proof (intro conjI ballI impI)
    show "meta_refreshed s3" by (rule m3)
    show "mapfile (write_map s3) = Some (mapping (write_map s3))" by simp
  next
    fix k assume "k \<in> fst ` set (mapping (write_map s3))" "py_in CHR ''-'' k"
    then obtain l where "l \<in> ?L" "int_part CHR ''-'' 1 k = Inr l"
      using levels_withinD [OF lw3, of k] by auto
    then show "\<exists>l. int_part CHR ''-'' 1 k = Inr l \<and> (\<forall>p \<in> set ?P. replica_matches s3 p l)"
      using match by blast
  qed
  ultimately show ?thesis ..
qed

lemma handler_mapping_same [simp]: "s\<lparr>mapping := mapping s\<rparr> = s"
  by simp

lemma refresh_replica_unchanged:
  assumes m: "meta_refreshed s" and k: "k \<in> set (get_replication_ids s)"
  shows "refresh_replica k s = Return () s"
proof -
  from k have kin: "k \<in> fst ` set (mapping s)" and dash: "py_in CHR ''-'' k"
    by (simp_all add: set_get_replication_ids)
  from kin obtain v where v: "map_of (mapping s) k = Some v"
    by (metis domD dom_map_of_conv_image_fst)
  then have "map_of (mapping s) (split_first CHR ''-'' k) = Some v"
    using meta_refreshedD [OF m kin dash] by simp
  then show ?thesis
    using update_triv [OF v] by (simp add: refresh_replica_def)
qed

lemma regenerate_replica_unchanged:
  assumes "replica_matches s p l"
  shows "regenerate_replica l p s = Return () s"
proof -
  from assms obtain v where v: "map_of (mapping s) p = Some v"
    and rv: "map_of (mapping s) (replica_key p l) = Some v"
    by (auto simp: replica_matches_def)
  from assms obtain c where c: "file_content (blob p) s = Inr c"
    and rc: "file_content (blob (replica_key p l)) s = Inr c"
    by (auto simp: replica_matches_def split: sum.splits)
  from rc obtain d where d: "data_dir s = Some d" and dc: "map_of d (blob (replica_key p l)) = Some c"
    by (auto simp: file_content_def split: option.splits)
  have "s\<lparr>mapping := AList.update (replica_key p l) v (mapping s)\<rparr> = s"
    using update_triv [OF rv] by simp
  moreover have "write_file (blob (replica_key p l)) c s = Return () s"
    using d update_triv [OF dc] by (simp add: write_file_def)
  ultimately show ?thesis
    using v c by (simp add: regenerate_replica_def copyfile_def)
qed

lemma reconcile_level_unchanged:
  assumes d: "data_dir s \<noteq> None"
    and m: "\<And>p. p \<in> set P \<Longrightarrow> replica_matches s p l"
  shows "reconcile_level P (l, ks) s = Return () s"
proof -
  obtain b where b: "rep_level_has_same_keys ks P l s = Inr b"
    using rep_level_has_same_keys_total [OF d] by blast
  have "for_each P (regenerate_replica l) s = Return () s"
    by (rule for_each_unchanged) (simp add: regenerate_replica_unchanged m)
  then show ?thesis using b by (simp add: reconcile_level_def)
qed

lemma reconciled_fixpoint:
  assumes r: "reconciled s"
  shows "update_replicated_levels s = Return () s"
proof -
  have m: "meta_refreshed s" and mf: "mapfile s = Some (mapping s)"
    using r by (simp_all add: reconciled_def)
  have lv: "\<exists>l. int_part CHR ''-'' 1 k = Inr l \<and> (\<forall>p \<in> set (get_shard_ids s). replica_matches s p l)"
    if "k \<in> set (get_replication_ids s)" for k
    using r that unfolding reconciled_def set_get_replication_ids by blast
  have st1: "for_each (get_replication_ids s) refresh_replica s = Return () s"
    by (rule for_each_unchanged) (rule refresh_replica_unchanged [OF m])
  obtain levels where cl: "collect_levels (get_replication_ids s) [] = Inr levels"
    using collect_levels_total [of "get_replication_ids s" "[]"] lv by blast
  have L: "fst ` set levels = {l. \<exists>k \<in> set (get_replication_ids s). int_part CHR ''-'' 1 k = Inr l}"
    using collect_levels_Inr [OF cl] by simp
  have st3: "for_each levels (reconcile_level (get_shard_ids s)) s = Return () s"
  proof (rule for_each_unchanged)
    fix lk assume lk: "lk \<in> set levels"
    obtain l ks where eq: "lk = (l, ks)" by (cases lk)
    have "l \<in> fst ` set levels" using lk eq by force
    then obtain k where k: "k \<in> set (get_replication_ids s)" and kl: "int_part CHR ''-'' 1 k = Inr l"
      unfolding L by blast
    have match: "replica_matches s p l" if "p \<in> set (get_shard_ids s)" for p
      using lv [OF k] kl that by auto
    from k have kin: "k \<in> fst ` set (mapping s)" and dash: "py_in CHR ''-'' k"
      by (simp_all add: set_get_replication_ids)
    have "map_of (mapping s) (split_first CHR ''-'' k) \<noteq> None"
      using meta_refreshedD [OF m kin dash] kin
      by (metis domIff dom_map_of_conv_image_fst)
    then have "split_first CHR ''-'' k \<in> fst ` set (mapping s)"
      by (metis domIff dom_map_of_conv_image_fst)
    then have "split_first CHR ''-'' k \<in> set (get_shard_ids s)"
      using split_first_no_sep_in [of "CHR ''-''" k] by (simp add: set_get_shard_ids py_in_def)
    then have "replica_matches s (split_first CHR ''-'' k) l" by (rule match)
    then have d: "data_dir s \<noteq> None"
      by (auto simp: replica_matches_def file_content_def split: sum.splits option.splits)
    show "reconcile_level (get_shard_ids s) lk s = Return () s"
      unfolding eq by (rule reconcile_level_unchanged [OF d match])
  qed
  have "write_map s = s" using mf by (simp add: write_map_def)
  then show ?thesis
    using st1 cl st3 by (simp add: update_replicated_levels_def create_replication_dict_def)
qed

lemma restore_primary_files_Return:
  assumes "restore_primary_files s = Return u s'"
  shows "primary_files_okay s' = Inr True"
proof -
  from assms obtain files t where
    "lift (listdir s) s = Return files t"
    and b: "and_then (restore_loop (length files) t) (\<lambda>u s.
     and_then (lift (primary_files_okay s) s) (\<lambda>ok s.
       if \<not> ok then Raise (Exception ''Missing files cannot be recoved'') s
       else Return () s)) = Return u s'"
    unfolding restore_primary_files_def by (rule and_then_ReturnE)
  from b obtain u2 t2 where
    "restore_loop (length files) t = Return u2 t2"
    and c: "and_then (lift (primary_files_okay t2) t2) (\<lambda>ok s.
       if \<not> ok then Raise (Exception ''Missing files cannot be recoved'') s
       else Return () s) = Return u s'"
    by (rule and_then_ReturnE)
  from c obtain ok t3 where
    d: "lift (primary_files_okay t2) t2 = Return ok t3"
    and e: "(if \<not> ok then Raise (Exception ''Missing files cannot be recoved'') t3
       else Return () t3) = Return u s'"
    by (rule and_then_ReturnE)
  from d have "primary_files_okay t2 = Inr ok" "t3 = t2" by (rule lift_ReturnE, simp)+
  moreover from e have "ok \<and> s' = t3" by (cases ok) auto
  ultimately show ?thesis by simp
qed

lemma sync_replication_Return:
  assumes "sync_replication s = Return u s'"
  obtains s0 where "primary_files_okay s0 = Inr True" "update_replicated_levels s0 = Return u s'"
proof -
  from assms obtain ok t where
    a: "lift (primary_files_okay s) s = Return ok t"
    and b: "and_then (if \<not> ok then restore_primary_files t else Return () t) (\<lambda>u s.
     update_replicated_levels s) = Return u s'"
    unfolding sync_replication_def by (rule and_then_ReturnE)
  from a have ok: "primary_files_okay s = Inr ok" and t: "t = s" by (rule lift_ReturnE, simp)+
  from b obtain u0 s0 where
    c: "(if \<not> ok then restore_primary_files t else Return () t) = Return u0 s0"
    and d: "update_replicated_levels s0 = Return u s'"
    by (rule and_then_ReturnE)
  have "primary_files_okay s0 = Inr True"
  proof (cases ok)
    case True
    with c t ok show ?thesis by simp
  next
    case False
    with c show ?thesis using restore_primary_files_Return by simp
  qed
  then show ?thesis using d by (rule that)
qed

lemma sync_replication_synced:
  assumes "sync_replication s = Return u s'"
  shows "synced s'"
proof -
  from assms obtain s0 where ok: "primary_files_okay s0 = Inr True"
    and up: "update_replicated_levels s0 = Return u s'"
    by (rule sync_replication_Return)
  have "same_primaries s0 s'" "reconciled s'"
    using update_replicated_levels_reconciles [OF up] by simp_all
  then show ?thesis
    using ok same_primaries_okay by (simp add: synced_def)
qed

lemma synced_fixpoint: "synced s \<Longrightarrow> sync_replication s = Return () s"
  by (simp add: synced_def sync_replication_def reconciled_fixpoint)

section \<open>Facts about the lookup and about comprehensions\<close>

lemma find_word_no_range:
  assumes "\<And>key. key \<in> set keys \<Longrightarrow>
            \<exists>m. map_of (mapping s) key = Some m \<and> \<not> (shard_start m \<le> index \<and> index \<le> shard_end m)"
  shows "find_word keys largest_key index s = Inr None"
  using assms
proof (induction keys)
  case Nil
  then show ?case by simp
next
  case (Cons key keys)
  obtain m where "map_of (mapping s) key = Some m"
    "\<not> (shard_start m \<le> index \<and> index \<le> shard_end m)"
    using Cons.prems [of key] by auto
  moreover have "find_word keys largest_key index s = Inr None"
    using Cons.IH Cons.prems by simp
  ultimately show ?case by auto
qed

lemma py_int_error: "py_int k = Inl e \<Longrightarrow> e = ValueError"
  by (auto simp: py_int_def parse_digits_def then_e_Inl split: list.splits if_splits)

lemma try_map_Inl:
  "try_map f xs = Inl e \<Longrightarrow> \<exists>x \<in> set xs. f x = Inl e"
  by (induction xs) (auto split: sum.splits)

lemma try_map_Inr:
  "try_map f xs = Inr ys \<Longrightarrow> length ys = length xs \<and> (\<forall>i < length xs. f (xs ! i) = Inr (ys ! i))"
proof (induction xs arbitrary: ys)
  case Nil
  then show ?case by simp
next
  case (Cons x xs)
  then show ?case by (auto split: sum.splits simp: nth_Cons')
qed

lemma try_map_total:
  "(\<And>x. x \<in> set xs \<Longrightarrow> \<exists>y. f x = Inr y) \<Longrightarrow> \<exists>ys. try_map f xs = Inr ys"
proof (induction xs)
  case Nil
  then show ?case by simp
next
  case (Cons x xs)
  then obtain y ys where "f x = Inr y" "try_map f xs = Inr ys" by force
  then show ?case by simp
qed

lemma key_in_mapping:
  "key \<in> set (get_shard_ids s) \<Longrightarrow> \<exists>m. map_of (mapping s) key = Some m"
  by (simp add: set_get_shard_ids) (metis domD dom_map_of_conv_image_fst)

section \<open>What the write loop leaves\<close>

lemma shard_key_inj: "shard_key i = shard_key j \<Longrightarrow> i = j"
  using str_of_int_inj [of "int i" "int j"] by (simp add: shard_key_def)

lemma shard_key_no_dash: "\<not> py_in CHR ''-'' (shard_key i)"
  by (simp add: shard_key_def str_of_int_no_dash)

lemma offset_before_0 [simp]: "offset_before ds 0 = 0"
  by (simp add: offset_before_def len_def)

lemma offset_before_Suc:
  "i < length ds \<Longrightarrow> offset_before ds (Suc i) = offset_before ds i + len (ds ! i)"
  by (simp add: offset_before_def len_def take_Suc_conv_app_nth)

lemma write_shard_effect:
  "\<exists>t. write_shard num d s = Return () t
     \<and> mapping t = AList.update (str_of_int num)
           \<lparr>shard_start = (if (if num = 0 then 0 else last_char_position s) = 0 then 0
                           else (if num = 0 then 0 else last_char_position s) + 1),
            shard_end = (if num = 0 then 0 else last_char_position s) + len d\<rparr> (mapping s)
     \<and> data_dir t = Some (AList.update (blob (str_of_int num)) d
           (case data_dir s of None \<Rightarrow> [] | Some dd \<Rightarrow> dd))
     \<and> last_char_position t = (if num = 0 then 0 else last_char_position s) + len d
     \<and> replication_level t = replication_level s
     \<and> mapfile t = mapfile s
     \<and> dir_order t = dir_order s"
  by (cases "data_dir s")
     (simp_all add: write_shard_def write_file_def write_shard_mapping_def py_int_str_of_int
        reset_char_position_def Let_def)


lemma zip_enumerate_Cons:
  "zip (map int [k..<k + length (d # rest)]) (d # rest)
   = (int k, d) # zip (map int [Suc k..<Suc k + length rest]) rest"
proof -
  have "[k..<k + length (d # rest)] = k # [Suc k..<Suc k + length rest]"
    by (subst upt_rec) (simp del: upt_Suc)
  then show ?thesis by (simp del: upt_Suc)
qed

lemma write_loop:
  assumes "ds = pre @ rest"
    and "pre = [] \<or> last_char_position t = offset_before ds (length pre)"
  shows "\<exists>t'. for_each (zip (map int [length pre..<length pre + length rest]) rest)
               (\<lambda>(num, d). write_shard num d) t = Return () t'
            \<and> written ds (length pre) t t'"
  using assms
proof (induction rest arbitrary: pre t)
  case Nil
  then show ?case by (auto simp: written_def)
next
  case (Cons d rest)
  let ?k = "length pre"
  let ?o = "if int ?k = 0 then 0 else last_char_position t"
  have kd: "ds ! ?k = d" and klt: "?k < length ds" using Cons.prems(1) by simp_all
  have o: "?o = offset_before ds ?k" using Cons.prems(2) by auto
  obtain t1 where
    w: "write_shard (int ?k) d t = Return () t1"
    and m1: "mapping t1 = AList.update (shard_key ?k)
           \<lparr>shard_start = (if ?o = 0 then 0 else ?o + 1), shard_end = ?o + len d\<rparr> (mapping t)"
    and d1: "data_dir t1 = Some (AList.update (blob (shard_key ?k)) d
           (case data_dir t of None \<Rightarrow> [] | Some dd \<Rightarrow> dd))"
    and l1: "last_char_position t1 = ?o + len d"
    and r1: "replication_level t1 = replication_level t"
    and f1: "mapfile t1 = mapfile t"
    and o1: "dir_order t1 = dir_order t"
    using write_shard_effect [of "int ?k" d t] unfolding shard_key_def by blast
  have e1: "\<lparr>shard_start = (if ?o = 0 then 0 else ?o + 1), shard_end = ?o + len d\<rparr>
            = expected_meta ds ?k"
    unfolding expected_meta_def offset_before_Suc [OF klt] kd o by simp
  have l1': "last_char_position t1 = offset_before ds (length (pre @ [d]))"
    using l1 o offset_before_Suc [OF klt] kd by simp
  have ds': "ds = (pre @ [d]) @ rest" using Cons.prems(1) by simp
  obtain t' where
    fe: "for_each (zip (map int [length (pre @ [d])..<length (pre @ [d]) + length rest]) rest)
               (\<lambda>(num, d). write_shard num d) t1 = Return () t'"
    and wr: "written ds (length (pre @ [d])) t1 t'"
    using Cons.IH [OF ds', of t1] l1' by blast
  have fe': "for_each (zip (map int [?k..<?k + length (d # rest)]) (d # rest))
               (\<lambda>(num, d). write_shard num d) t = Return () t'"
    unfolding zip_enumerate_Cons using w fe by simp
  have notin: "shard_key ?k \<notin> shard_key ` {Suc ?k..<length ds}"
    using shard_key_inj by fastforce
  have notin': "blob (shard_key ?k) \<notin> (\<lambda>i. blob (shard_key i)) ` {Suc ?k..<length ds}"
    using shard_key_inj by fastforce
  have rd1: "file_content name t1 = (if name = blob (shard_key ?k) then Inr d else file_content name t)"
    for name
    by (cases "data_dir t") (simp_all add: file_content_def d1 update_conv')
  have split: "{?k..<length ds} = insert ?k {Suc ?k..<length ds}" using klt by auto
  have "written ds ?k t t'"
    unfolding written_def
  proof (intro conjI allI impI)
    fix i assume i: "?k \<le> i \<and> i < length ds"
    show "map_of (mapping t') (shard_key i) = Some (expected_meta ds i)"
    proof (cases "i = ?k")
      case True
      have "map_of (mapping t') (shard_key ?k) = map_of (mapping t1) (shard_key ?k)"
        using wr notin by (simp add: written_def)
      then show ?thesis using True m1 e1 by (simp add: update_conv')
    next
      case False
      then show ?thesis using wr i by (simp add: written_def)
    qed
    show "file_content (blob (shard_key i)) t' = Inr (ds ! i)"
    proof (cases "i = ?k")
      case True
      have "file_content (blob (shard_key ?k)) t' = file_content (blob (shard_key ?k)) t1"
        using wr notin' by (simp add: written_def)
      then show ?thesis using True rd1 kd by simp
    next
      case False
      then show ?thesis using wr i by (simp add: written_def)
    qed
  next
    fix key assume "key \<notin> shard_key ` {?k..<length ds}"
    then have a: "key \<noteq> shard_key ?k" and b: "key \<notin> shard_key ` {Suc ?k..<length ds}"
      unfolding split by auto
    have "map_of (mapping t') key = map_of (mapping t1) key"
      using wr b by (simp add: written_def)
    then show "map_of (mapping t') key = map_of (mapping t) key"
      using a m1 by (simp add: update_conv')
  next
    fix name assume "name \<notin> (\<lambda>i. blob (shard_key i)) ` {?k..<length ds}"
    then have a: "name \<noteq> blob (shard_key ?k)"
      and b: "name \<notin> (\<lambda>i. blob (shard_key i)) ` {Suc ?k..<length ds}"
      unfolding split by auto
    have "file_content name t' = file_content name t1"
      using wr b by (simp add: written_def)
    then show "file_content name t' = file_content name t" using a rd1 by simp
  next
    have "fst ` set (mapping t') = fst ` set (mapping t1) \<union> shard_key ` {Suc ?k..<length ds}"
      using wr by (simp add: written_def)
    then show "fst ` set (mapping t') = fst ` set (mapping t) \<union> shard_key ` {?k..<length ds}"
      unfolding split m1 by (auto simp: dom_update)
  next
    show "last_char_position t' = offset_before ds (length ds)"
    proof (cases "Suc ?k < length ds")
      case True
      then show ?thesis using wr by (simp add: written_def)
    next
      case False
      then have "rest = []" using Cons.prems(1) by simp
      then show ?thesis using fe l1' Cons.prems(1) by simp
    qed
  next
    show "replication_level t' = replication_level t" using wr r1 by (simp add: written_def)
    show "mapfile t' = mapfile t" using wr f1 by (simp add: written_def)
    show "dir_order t' = dir_order t" using wr o1 by (simp add: written_def)
  qed
  with fe' show ?case by blast
qed

lemma write_shards_written:
  "\<exists>t'. write_shards ds t = Return () t' \<and> written ds 0 t t'"
  using write_loop [of ds "[]" ds t] by (simp add: write_shards_def py_enumerate_def)

lemma shard_key_0 [simp]: "shard_key 0 = ''0''"
  by (simp add: shard_key_def str_of_int_def str_of_nat.simps digit_char_def)

lemma shard_key_str_of_nat: "shard_key i = str_of_nat i"
  by (simp add: shard_key_def str_of_int_def)

lemma digit_ge_0: "is_digit c \<Longrightarrow> CHR ''0'' \<le> c"
  by (auto simp: is_digit_def less_eq_char_def)

lemma shard_key_ge_0: "''0'' \<le> shard_key i"
proof -
  obtain c r where cr: "str_of_nat i = c # r"
    using str_of_nat_nonempty [of i] by (cases "str_of_nat i") auto
  then have "is_digit c" using str_of_nat_digits [of c i] by simp
  then have "CHR ''0'' \<le> c" by (rule digit_ge_0)
  then show ?thesis
    unfolding shard_key_str_of_nat cr by (auto simp: less_le)
qed

lemma sort_least_first:
  fixes x :: "'a :: linorder"
  assumes "x \<in> set xs" and "\<And>y. y \<in> set xs \<Longrightarrow> x \<le> y"
  shows "\<exists>r. sort xs = x # r"
proof -
  have ne: "sort xs \<noteq> []" using assms(1) by (metis empty_iff list.set(1) set_sort)
  then obtain h r where hr: "sort xs = h # r" by (cases "sort xs") auto
  have "h \<in> set xs" by (metis hr list.set_intros(1) set_sort)
  then have "x \<le> h" by (rule assms(2))
  moreover have "h \<le> x"
    using sorted_sort [of xs] assms(1) unfolding hr
    by (metis hr order_refl set_ConsD set_sort sorted_simps(2))
  ultimately show ?thesis using hr by auto
qed

lemma py_nth_past_len: "len xs \<le> i \<Longrightarrow> py_nth xs i = Inl IndexError"
  by (simp add: py_nth_def len_def)

lemma length_universal_newlines: "length (universal_newlines d) \<le> length d"
  by (induction d rule: universal_newlines.induct) auto

lemma read_file_content:
  "file_content name s = Inr c \<Longrightarrow> read_file name s = Inr (universal_newlines c)"
  by (simp add: read_file_def)

lemma skip_punctuation_past_len:
  "len text \<le> i \<Longrightarrow> skip_punctuation text i = Inl IndexError"
  by (subst skip_punctuation.simps) (simp add: py_nth_past_len)

lemma word_in_shard_past_end:
  assumes "file_content (blob key) s = Inr d"
  shows "word_in_shard key largest_key (len d) s = Inl IndexError"
proof -
  have "len (universal_newlines d) \<le> len d"
    using length_universal_newlines [of d] by (simp add: len_def)
  then show ?thesis
    using read_file_content [OF assms]
    by (simp add: word_in_shard_def skip_punctuation_past_len del: skip_punctuation.simps)
qed

lemma py_max_total: "numbers \<noteq> [] \<Longrightarrow> \<exists>m. py_max numbers = Inr m"
  by (cases numbers) auto

lemma split_total:
  assumes "1 \<le> count"
  obtains ds where "generate_sharded_data count text = Inr ds" "len ds = count" "concat ds = text"
  using split_round_trip [OF assms, of "text"] by blast

lemma build_shards_written:
  assumes "mapping s = []" and "generate_sharded_data count text = Inr ds"
  obtains t' where "build_shards count text s = Return None (write_map t')" "written ds 0 s t'"
proof -
  obtain t' where w: "write_shards ds s = Return () t'" and wr: "written ds 0 s t'"
    using write_shards_written by blast
  have "build_shards count text s = Return None (write_map t')"
    using assms w by (simp add: build_shards_def)
  then show ?thesis using wr that by blast
qed

lemma lookup_at_end_of_shard_0:
  assumes keys: "fst ` set (mapping s') = shard_key ` {0..<n}" and n: "0 < n"
    and m: "map_of (mapping s') ''0'' = Some m" and st: "shard_start m = 0"
    and en: "shard_end m = len d0"
    and rd: "file_content (blob ''0'') s' = Inr d0"
  shows "\<exists>largest_key.
           get_word_at_index (shard_end m) s'
             = then_e (word_in_shard ''0'' largest_key (shard_end m - shard_start m) s')
                 (\<lambda>r. Inr (Some r))
           \<and> word_in_shard ''0'' largest_key (len d0) s' = Inl IndexError"
proof -
  let ?xs = "filter (\<lambda>key. \<not> py_in CHR ''-'' key) (map fst (mapping s'))"
  have set_xs: "set ?xs = shard_key ` {0..<n}"
    using keys shard_key_no_dash by auto
  have "''0'' \<in> set ?xs" unfolding set_xs using n shard_key_0 by (metis atLeastLessThan_iff imageI le0)
  moreover have "''0'' \<le> y" if "y \<in> set ?xs" for y
    using that shard_key_ge_0 unfolding set_xs by auto
  ultimately obtain r where r: "get_shard_ids s' = ''0'' # r"
    unfolding get_shard_ids_def using sort_least_first [of "''0''" ?xs] by blast
  have "set (get_shard_ids s') = shard_key ` {0..<n}"
    unfolding get_shard_ids_def using set_xs by simp
  then have "\<exists>y. py_int x = Inr y" if "x \<in> set (get_shard_ids s')" for x
    using that py_int_str_of_int by (auto simp: shard_key_def)
  then obtain numbers where nums: "try_map py_int (get_shard_ids s') = Inr numbers"
    using try_map_total [of "get_shard_ids s'" py_int] by blast
  have "length numbers = length (get_shard_ids s')" using try_map_Inr [OF nums] by simp
  then have "numbers \<noteq> []" using r by auto
  then obtain largest where mx: "py_max numbers = Inr largest" using py_max_total by blast
  have "0 \<le> len d0" by (simp add: len_def)
  then have "find_word (''0'' # r) largest (shard_end m) s'
             = then_e (word_in_shard ''0'' largest (shard_end m - shard_start m) s')
                 (\<lambda>r. Inr (Some r))"
    using m st en by simp
  then have "get_word_at_index (shard_end m) s'
             = then_e (word_in_shard ''0'' largest (shard_end m - shard_start m) s')
                 (\<lambda>r. Inr (Some r))"
    using nums mx r by (simp add: get_word_at_index_def)
  then show ?thesis
    using word_in_shard_past_end [OF rd, of largest] by blast
qed

section \<open>What restoring and synchronising leave alone\<close>

lemma files_only_refl [simp]: "files_only s s"
  by (simp add: files_only_def)

lemma files_only_trans: "files_only s t \<Longrightarrow> files_only t u \<Longrightarrow> files_only s u"
  by (simp add: files_only_def)

lemma and_then_Return_iff:
  "and_then r f = Return v s' \<longleftrightarrow> (\<exists>u t. r = Return u t \<and> f u t = Return v s')"
  by (cases r) auto

lemma lift_Return_iff: "lift r s = Return v s' \<longleftrightarrow> r = Inr v \<and> s' = s"
  by (cases r) auto

lemma for_each_related:
  assumes refl: "\<And>s. R s s" and trans: "\<And>s t u. R s t \<Longrightarrow> R t u \<Longrightarrow> R s u"
    and step: "\<And>x t t'. x \<in> set xs \<Longrightarrow> f x t = Return () t' \<Longrightarrow> R t t'"
    and fe: "for_each xs f s = Return u s'"
  shows "R s s'"
proof (rule for_each_invariant [where P = "R s", OF fe])
  show "R s s" by (rule refl)
next
  fix x t t' assume "x \<in> set xs" "R s t" "f x t = Return () t'"
  then show "R s t'" using step trans by blast
qed

lemma copyfile_files_only: "copyfile a b s = Return u t \<Longrightarrow> files_only s t"
  by (auto simp: copyfile_def write_file_def files_only_def split: sum.splits option.splits)

lemma copy_first_match_files_only: "copy_first_match i fs s = Return u t \<Longrightarrow> files_only s t"
  by (induction fs) (auto split: sum.splits if_splits dest: copyfile_files_only)

lemma restore_pass_files_only:
  assumes "restore_pass s = Return u t"
  shows "files_only s t"
proof -
  from assms obtain files nums onums lastp other s1 where
    c: "(if filter (\<lambda>file. \<not> py_in CHR ''-'' file) files = []
             \<or> (case lastp of Some l \<Rightarrow> l < other | None \<Rightarrow> True)
          then and_then (lift (py_nth (filter (\<lambda>file. py_in CHR ''-'' file) files) (- 1)) s)
                 (\<lambda>src. copyfile src (blob (str_of_int other)))
          else Return () s) = Return () s1"
    and l: "for_each (py_enumerate (filter (\<lambda>file. \<not> py_in CHR ''-'' file) files))
         (\<lambda>(i, file) s.
            and_then (lift (py_int (split_first CHR ''.'' file)) s) (\<lambda>n s.
              if i \<noteq> n then copy_first_match i (filter (\<lambda>file. py_in CHR ''-'' file) files) s
              else Return () s)) s1 = Return u t"
    unfolding restore_pass_def Let_def and_then_Return_iff lift_Return_iff by auto
  have "files_only s s1"
    using c by (auto simp: and_then_Return_iff lift_Return_iff split: if_splits
        dest: copyfile_files_only)
  moreover have "files_only s1 t"
  proof (rule for_each_related [where R = files_only, OF _ _ _ l])
    show "\<And>s. files_only s s" by simp
    show "\<And>s t u. files_only s t \<Longrightarrow> files_only t u \<Longrightarrow> files_only s u"
      by (rule files_only_trans)
  next
    fix x t t'
    assume "(case x of (i, file) \<Rightarrow> \<lambda>s.
            and_then (lift (py_int (split_first CHR ''.'' file)) s) (\<lambda>n s.
              if i \<noteq> n then copy_first_match i (filter (\<lambda>file. py_in CHR ''-'' file) files) s
              else Return () s)) t = Return () t'"
    then show "files_only t t'"
      by (cases x) (auto simp: and_then_Return_iff lift_Return_iff split: if_splits
          dest: copy_first_match_files_only)
  qed
  ultimately show ?thesis by (rule files_only_trans)
qed

lemma restore_loop_files_only: "restore_loop x s = Return u t \<Longrightarrow> files_only s t"
proof (induction x arbitrary: s)
  case 0
  then show ?case by (auto split: sum.splits)
next
  case (Suc x)
  then show ?case
    by (auto split: sum.splits if_splits outcome.splits
        dest!: restore_pass_files_only intro: files_only_trans)
qed

lemma restore_primary_files_files_only:
  "restore_primary_files s = Return u t \<Longrightarrow> files_only s t"
  by (auto simp: restore_primary_files_def and_then_Return_iff lift_Return_iff
      split: if_splits dest: restore_loop_files_only)

lemma same_entries_refl [simp]: "same_entries s s"
  by (simp add: same_entries_def)

lemma same_entries_trans: "same_entries s t \<Longrightarrow> same_entries t u \<Longrightarrow> same_entries s u"
  by (simp add: same_entries_def)

lemma files_only_same_entries: "files_only s t \<Longrightarrow> same_entries s t"
  by (simp add: files_only_def same_entries_def primary_entries_def)

lemma same_primaries_same_entries: "same_primaries s t \<Longrightarrow> same_entries s t"
  by (simp add: same_primaries_def same_entries_def)

lemma sync_replication_same_entries:
  assumes "sync_replication s = Return u t"
  shows "same_entries s t"
proof -
  from assms obtain ok s0 where
    a: "(if \<not> ok then restore_primary_files s else Return () s) = Return () s0"
    and b: "update_replicated_levels s0 = Return u t"
    unfolding sync_replication_def and_then_Return_iff lift_Return_iff by auto
  have "files_only s s0"
    using a by (auto split: if_splits dest: restore_primary_files_files_only)
  then have "same_entries s s0" by (rule files_only_same_entries)
  moreover have "same_entries s0 t"
    using update_replicated_levels_reconciles [OF b] same_primaries_same_entries by blast
  ultimately show ?thesis by (rule same_entries_trans)
qed

section \<open>What the operations do to the recorded offsets\<close>

lemma key_present_iff: "k \<in> fst ` set al \<longleftrightarrow> map_of al k \<noteq> None"
  by (metis domIff dom_map_of_conv_image_fst)

lemma offsets_chained_written:
  assumes ent: "\<And>i. i < length ds \<Longrightarrow> map_of (mapping s') (shard_key i) = Some (expected_meta ds i)"
    and bound: "\<And>j. shard_key j \<in> fst ` set (mapping s') \<Longrightarrow> j < length ds"
  shows "offsets_chained s'"
  unfolding offsets_chained_def
proof (intro conjI allI impI)
  fix m assume m: "map_of (mapping s') (shard_key 0) = Some m"
  then have "0 < length ds" using bound [of 0] by (simp add: key_present_iff)
  then have "m = expected_meta ds 0" using ent [of 0] m by simp
  then show "shard_start m = 0" by (simp add: expected_meta_def)
next
  fix i a b
  assume ab: "map_of (mapping s') (shard_key i) = Some a
              \<and> map_of (mapping s') (shard_key (Suc i)) = Some b"
  then have lt: "Suc i < length ds" using bound [of "Suc i"] by (simp add: key_present_iff)
  then have "a = expected_meta ds i" "b = expected_meta ds (Suc i)"
    using ent [of i] ent [of "Suc i"] ab by simp_all
  then show "shard_start b = (if shard_end a = 0 then 0 else shard_end a + 1)"
    by (simp add: expected_meta_def)
qed

lemma same_entries_lookup:
  "same_entries s t \<Longrightarrow> \<not> py_in CHR ''-'' k \<Longrightarrow> map_of (mapping t) k = map_of (mapping s) k"
  by (simp add: same_entries_def map_of_primary_entries)

lemma same_entries_offsets_chained:
  "same_entries s t \<Longrightarrow> offsets_chained s \<Longrightarrow> offsets_chained t"
  using shard_key_no_dash [of 0]
  by (simp add: offsets_chained_def same_entries_lookup shard_key_no_dash)

lemma write_map_same_entries: "same_entries s (write_map s)"
  by (simp add: same_entries_def primary_entries_def)

lemma build_shards_offsets_chained:
  assumes "build_shards count text s = Return None s'"
  shows "offsets_chained s'"
proof -
  from assms have e: "mapping s = []" by (auto simp: build_shards_def split: if_splits)
  from assms e obtain ds t where g: "generate_sharded_data count text = Inr ds"
    and w: "write_shards ds s = Return () t" and s': "s' = write_map t"
    by (auto simp: build_shards_def and_then_Return_iff lift_Return_iff)
  have wr: "written ds 0 s t" using write_shards_written [of ds s] w by auto
  show ?thesis
  proof (rule offsets_chained_written [of ds])
    fix i assume "i < length ds"
    then show "map_of (mapping s') (shard_key i) = Some (expected_meta ds i)"
      using wr by (simp add: written_def s')
  next
    fix j assume "shard_key j \<in> fst ` set (mapping s')"
    then have "shard_key j \<in> shard_key ` {0..<length ds}"
      using wr e by (simp add: written_def s')
    then show "j < length ds" by (auto dest: shard_key_inj)
  qed
qed

lemma fold_max_ge:
  fixes a :: int
  shows "a \<le> fold max xs a \<and> (\<forall>y \<in> set xs. y \<le> fold max xs a)"
proof (induction xs arbitrary: a)
  case Nil
  then show ?case by simp
next
  case (Cons z zs)
  have "max z a \<le> fold max zs (max z a)" and "\<forall>y \<in> set zs. y \<le> fold max zs (max z a)"
    using Cons.IH [of "max z a"] by simp_all
  then show ?case by auto
qed

lemma py_max_ge: "py_max ks = Inr m \<Longrightarrow> k \<in> set ks \<Longrightarrow> k \<le> m"
  using fold_max_ge by (cases ks) auto

lemma try_map_member:
  assumes "try_map f xs = Inr ys" "x \<in> set xs" "f x = Inr y"
  shows "y \<in> set ys"
proof -
  from assms(2) obtain i where i: "i < length xs" "xs ! i = x" by (auto simp: in_set_conv_nth)
  then have "f x = Inr (ys ! i)" "i < length ys" using try_map_Inr [OF assms(1)] by auto
  then show ?thesis using assms(3) by auto
qed

lemma shard_key_number:
  assumes "try_map py_int (get_shard_ids s) = Inr ks" "shard_key j \<in> fst ` set (mapping s)"
  shows "int j \<in> set ks"
proof -
  have "shard_key j \<in> set (get_shard_ids s)"
    using assms(2) shard_key_no_dash by (simp add: set_get_shard_ids)
  moreover have "py_int (shard_key j) = Inr (int j)"
    by (simp add: shard_key_def py_int_str_of_int)
  ultimately show ?thesis using try_map_member [OF assms(1)] by blast
qed

lemma split_length:
  assumes "generate_sharded_data count text = Inr ds" "1 \<le> count"
  shows "int (length ds) = count"
  using split_round_trip [OF assms(2), of "text"] assms(1) by (auto simp: len_def)

lemma add_shard_Return:
  assumes "add_shard s = Return u s'"
  obtains s1 data ks largest ds t where
    "sync_replication s = Return () s1"
    "try_map py_int (get_shard_ids (s1\<lparr>mapping := load_map s1\<rparr>)) = Inr ks"
    "py_max ks = Inr largest"
    "generate_sharded_data (largest + 2) data = Inr ds"
    "write_shards ds (s1\<lparr>mapping := load_map s1\<rparr>) = Return () t"
    "sync_replication (write_map t) = Return u s'"
  using assms unfolding add_shard_def Let_def and_then_Return_iff lift_Return_iff by auto

lemma rebalanced_offsets_chained:
  assumes ks: "try_map py_int (get_shard_ids s2) = Inr ks"
    and w: "write_shards ds s5 = Return () t"
    and sy: "sync_replication (write_map t) = Return u s'"
    and sub: "fst ` set (mapping s5) \<subseteq> fst ` set (mapping s2)"
    and bound: "\<And>j. shard_key j \<in> fst ` set (mapping s5) \<Longrightarrow> int j \<in> set ks \<Longrightarrow> j < length ds"
  shows "offsets_chained s'"
proof -
  have wr: "written ds 0 s5 t" using write_shards_written [of ds s5] w by auto
  have "same_entries t s'"
    using write_map_same_entries [of t] sync_replication_same_entries [OF sy]
    by (rule same_entries_trans)
  then have look: "map_of (mapping s') (shard_key i) = map_of (mapping t) (shard_key i)" for i
    using same_entries_lookup shard_key_no_dash by blast
  show ?thesis
  proof (rule offsets_chained_written [of ds])
    fix i assume "i < length ds"
    then show "map_of (mapping s') (shard_key i) = Some (expected_meta ds i)"
      using wr by (simp add: look written_def)
  next
    fix j assume "shard_key j \<in> fst ` set (mapping s')"
    then have "shard_key j \<in> fst ` set (mapping t)" by (simp add: key_present_iff look)
    then have "shard_key j \<in> fst ` set (mapping s5) \<or> shard_key j \<in> shard_key ` {0..<length ds}"
      using wr by (auto simp: written_def)
    then show "j < length ds"
    proof
      assume a: "shard_key j \<in> fst ` set (mapping s5)"
      then have "int j \<in> set ks" using shard_key_number [OF ks] sub by blast
      with a show ?thesis by (rule bound)
    next
      assume "shard_key j \<in> shard_key ` {0..<length ds}"
      then show ?thesis by (auto dest: shard_key_inj)
    qed
  qed
qed

lemma add_shard_offsets_chained:
  assumes "add_shard s = Return u s'"
  shows "offsets_chained s'"
proof -
  from assms obtain s1 data ks largest ds t where
    ks: "try_map py_int (get_shard_ids (s1\<lparr>mapping := load_map s1\<rparr>)) = Inr ks"
    and mx: "py_max ks = Inr largest"
    and g: "generate_sharded_data (largest + 2) data = Inr ds"
    and w: "write_shards ds (s1\<lparr>mapping := load_map s1\<rparr>) = Return () t"
    and sy: "sync_replication (write_map t) = Return u s'"
    by (rule add_shard_Return)
  show ?thesis
  proof (rule rebalanced_offsets_chained [OF ks w sy])
    show "fst ` set (mapping (s1\<lparr>mapping := load_map s1\<rparr>))
          \<subseteq> fst ` set (mapping (s1\<lparr>mapping := load_map s1\<rparr>))" by simp
  next
    fix j assume "int j \<in> set ks"
    then have "int j \<le> largest" using py_max_ge [OF mx] by simp
    then show "j < length ds" using split_length [OF g] by simp
  qed
qed

lemma remove_file_files_only: "remove_file name s = Return u t \<Longrightarrow> files_only s t"
  by (auto simp: remove_file_def files_only_def split: option.splits)

lemma remove_shard_file_files_only:
  "remove_shard_file n name s = Return u t \<Longrightarrow> files_only s t"
  by (auto simp: remove_shard_file_def split: if_splits dest: remove_file_files_only)

lemma keys_delete: "fst ` set (AList.delete k al) = fst ` set al - {k}"
  by (induction al) auto

lemma remove_shard_key_mapping:
  assumes "remove_shard_key n k t = Return u t1"
  shows "mapping t1 = mapping t \<or> mapping t1 = AList.delete k (mapping t)"
    and "\<not> py_in CHR ''-'' (str_of_int n) \<Longrightarrow> k = str_of_int n \<Longrightarrow>
           mapping t1 = AList.delete k (mapping t)"
  using assms by (auto simp: remove_shard_key_def split: if_splits)

lemma remove_shard_key_loop:
  "for_each ks (remove_shard_key n) t = Return u t' \<Longrightarrow>
     fst ` set (mapping t') \<subseteq> fst ` set (mapping t)
     \<and> (\<not> py_in CHR ''-'' (str_of_int n) \<longrightarrow> str_of_int n \<in> set ks
          \<longrightarrow> str_of_int n \<notin> fst ` set (mapping t'))"
proof (induction ks arbitrary: t)
  case Nil
  then show ?case by simp
next
  case (Cons k ks)
  from Cons.prems obtain t1 where
    a: "remove_shard_key n k t = Return () t1" and b: "for_each ks (remove_shard_key n) t1 = Return u t'"
    by (auto split: outcome.splits)
  have sub1: "fst ` set (mapping t1) \<subseteq> fst ` set (mapping t)"
    using remove_shard_key_mapping(1) [OF a] by (elim disjE) (simp_all add: keys_delete)
  have del: "str_of_int n \<notin> fst ` set (mapping t1)"
    if "\<not> py_in CHR ''-'' (str_of_int n)" "k = str_of_int n"
    using remove_shard_key_mapping(2) [OF a that] that(2) by (simp add: keys_delete)
  have ih1: "fst ` set (mapping t') \<subseteq> fst ` set (mapping t1)"
    and ih2: "\<not> py_in CHR ''-'' (str_of_int n) \<Longrightarrow> str_of_int n \<in> set ks
          \<Longrightarrow> str_of_int n \<notin> fst ` set (mapping t')"
    using Cons.IH [OF b] by blast+
  have "fst ` set (mapping t') \<subseteq> fst ` set (mapping t)" using ih1 sub1 by (rule subset_trans)
  moreover have "str_of_int n \<notin> fst ` set (mapping t')"
    if "\<not> py_in CHR ''-'' (str_of_int n)" "str_of_int n \<in> set (k # ks)"
  proof (cases "k = str_of_int n")
    case True
    then show ?thesis using del [OF that(1)] ih1 by blast
  next
    case False
    then show ?thesis using ih2 that by simp
  qed
  ultimately show ?case by blast
qed

lemma remove_shard_Return:
  assumes "remove_shard s = Return u s'"
  obtains s1 data ks n ds files s4 s5 t where
    "sync_replication s = Return () s1"
    "try_map py_int (get_shard_ids (s1\<lparr>mapping := load_map s1\<rparr>)) = Inr ks"
    "py_max ks = Inr n"
    "generate_sharded_data n data = Inr ds"
    "for_each files (remove_shard_file n) (s1\<lparr>mapping := load_map s1\<rparr>) = Return () s4"
    "for_each (map fst (mapping s4)) (remove_shard_key n) s4 = Return () s5"
    "write_shards ds s5 = Return () t"
    "sync_replication (write_map t) = Return u s'"
  using assms
  by (auto simp: remove_shard_def Let_def and_then_Return_iff lift_Return_iff split: if_splits)

lemma remove_shard_offsets_chained:
  assumes "remove_shard s = Return u s'"
  shows "offsets_chained s'"
proof -
  from assms obtain s1 data ks n ds files s4 s5 t where
    ks: "try_map py_int (get_shard_ids (s1\<lparr>mapping := load_map s1\<rparr>)) = Inr ks"
    and mx: "py_max ks = Inr n"
    and g: "generate_sharded_data n data = Inr ds"
    and rf: "for_each files (remove_shard_file n) (s1\<lparr>mapping := load_map s1\<rparr>) = Return () s4"
    and rk: "for_each (map fst (mapping s4)) (remove_shard_key n) s4 = Return () s5"
    and w: "write_shards ds s5 = Return () t"
    and sy: "sync_replication (write_map t) = Return u s'"
    by (rule remove_shard_Return)
  let ?s2 = "s1\<lparr>mapping := load_map s1\<rparr>"
  have "files_only ?s2 s4"
    by (rule for_each_related [where R = files_only, OF _ _ _ rf])
       (auto intro: files_only_trans dest: remove_shard_file_files_only)
  then have m4: "mapping s4 = mapping ?s2" by (simp add: files_only_def)
  have sub: "fst ` set (mapping s5) \<subseteq> fst ` set (mapping ?s2)"
    using remove_shard_key_loop [OF rk] m4 by simp
  show ?thesis
  proof (rule rebalanced_offsets_chained [OF ks w sy sub])
    fix j assume in5: "shard_key j \<in> fst ` set (mapping s5)" and jk: "int j \<in> set ks"
    have le: "int j \<le> n" using py_max_ge [OF mx jk] .
    then have n0: "0 \<le> n" by simp
    have in4: "shard_key j \<in> set (map fst (mapping s4))" using in5 sub m4 by auto
    have "int j \<noteq> n"
    proof
      assume "int j = n"
      then have e: "shard_key j = str_of_int n" by (simp add: shard_key_def)
      have "str_of_int n \<notin> fst ` set (mapping s5)"
        using remove_shard_key_loop [OF rk] str_of_int_no_dash [OF n0] in4 e by simp
      with in5 e show False by simp
    qed
    with le have "1 \<le> n" by simp
    then show "j < length ds" using split_length [OF g] le \<open>int j \<noteq> n\<close> by simp
  qed
qed

lemma try_filter_subset: "try_filter f xs = Inr ys \<Longrightarrow> set ys \<subseteq> set xs"
proof (induction xs arbitrary: ys)
  case Nil
  then show ?case by simp
next
  case (Cons x xs)
  then show ?case by (fastforce split: sum.splits if_splits)
qed

lemma remove_replica_same_entries:
  "py_in CHR ''-'' key \<Longrightarrow> remove_replica key s = Return u t \<Longrightarrow> same_entries s t"
  by (auto simp: remove_replica_def remove_file_def same_entries_def primary_entries_def
      filter_delete_dropped [where P = "\<lambda>k. \<not> py_in CHR ''-'' k"] split: option.splits)

lemma remove_replication_same_entries:
  assumes "remove_replication s = Return u s'"
  shows "same_entries s s'"
proof -
  from assms obtain s1 backup_keys s3 where
    a: "sync_replication s = Return () s1"
    and b: "try_filter (\<lambda>key. then_e (int_part CHR ''-'' 1 key)
                (\<lambda>l. Inr (l > replication_level (s1\<lparr>replication_level := replication_level s1 - 1\<rparr>))))
              (get_replication_ids (s1\<lparr>replication_level := replication_level s1 - 1\<rparr>))
            = Inr backup_keys"
    and c: "for_each backup_keys remove_replica (s1\<lparr>replication_level := replication_level s1 - 1\<rparr>)
            = Return () s3"
    and d: "sync_replication (write_map s3) = Return u s'"
    by (auto simp: remove_replication_def Let_def and_then_Return_iff lift_Return_iff
        split: if_splits)
  let ?s2 = "s1\<lparr>replication_level := replication_level s1 - 1\<rparr>"
  have dash: "py_in CHR ''-'' k" if "k \<in> set backup_keys" for k
    using try_filter_subset [OF b] that by (auto simp: set_get_replication_ids)
  have 1: "same_entries s s1" by (rule sync_replication_same_entries [OF a])
  have 2: "same_entries s1 ?s2" by (simp add: same_entries_def primary_entries_def)
  have 3: "same_entries ?s2 s3"
    by (rule for_each_related [where R = same_entries, OF _ _ _ c])
       (auto intro: same_entries_trans dest: remove_replica_same_entries [OF dash])
  have 4: "same_entries s3 s'"
    using write_map_same_entries [of s3] sync_replication_same_entries [OF d]
    by (rule same_entries_trans)
  show ?thesis using 1 2 3 4 same_entries_trans by blast
qed

lemma add_replication_same_entries:
  assumes "add_replication s = Return u s'"
  shows "same_entries s s'"
proof -
  from assms obtain s1 files s3 s4 where
    a: "sync_replication s = Return () s1"
    and c: "for_each (py_enumerate (sort (filter (\<lambda>filename. \<not> py_in CHR ''-'' filename) files)))
              (\<lambda>(i, file) s. copyfile file
                  (blob (replica_key (str_of_int i) (replication_level s))) s)
              (s1\<lparr>replication_level := replication_level s1 + 1\<rparr>) = Return () s3"
    and e: "for_each (py_enumerate (get_shard_ids s3))
              (\<lambda>(i, key) s. case map_of (mapping s) key of
                          None \<Rightarrow> Raise KeyError s
                        | Some v \<Rightarrow> Return () (s\<lparr>mapping := AList.update
                              (replica_key (str_of_int i) (replication_level s)) v
                              (mapping s)\<rparr>)) s3 = Return () s4"
    and d: "sync_replication (write_map s4) = Return u s'"
    unfolding add_replication_def Let_def and_then_Return_iff lift_Return_iff
    by auto
  let ?s2 = "s1\<lparr>replication_level := replication_level s1 + 1\<rparr>"
  have 1: "same_entries s s1" by (rule sync_replication_same_entries [OF a])
  have 2: "same_entries s1 ?s2" by (simp add: same_entries_def primary_entries_def)
  have "files_only ?s2 s3"
    by (rule for_each_related [where R = files_only, OF _ _ _ c])
       (auto intro: files_only_trans dest: copyfile_files_only)
  then have 3: "same_entries ?s2 s3" by (rule files_only_same_entries)
  have 4: "same_entries s3 s4"
    by (rule for_each_related [where R = same_entries, OF _ _ _ e])
       (auto intro: same_entries_trans simp: same_entries_def primary_entries_def
          filter_update_dropped [where P = "\<lambda>k. \<not> py_in CHR ''-'' k"] split: option.splits)
  have 5: "same_entries s4 s'"
    using write_map_same_entries [of s4] sync_replication_same_entries [OF d]
    by (rule same_entries_trans)
  show ?thesis using 1 2 3 4 5 same_entries_trans by blast
qed

section \<open>The splitter: claims C4 and C9\<close>

text \<open>
  C4. For any text and any count of at least 1 the split returns (it does not
  raise), the list it returns has exactly \<open>count\<close> slices, and the slices
  concatenated in order are the text. This includes \<open>count > len text\<close>, where
  every slice but the last is empty.
\<close>

theorem generate_sharded_data_round_trip:
  assumes "1 \<le> count"
  shows "\<exists>slices. generate_sharded_data count text = Inr slices
           \<and> len slices = count \<and> concat slices = text"
  using assms by (rule split_round_trip)

theorem generate_sharded_data_round_trip_witness:
  "(1::int) \<le> 5 \<and> (\<exists>slices. generate_sharded_data 5 ''ab'' = Inr slices
           \<and> len slices = 5 \<and> concat slices = ''ab'')"
  using generate_sharded_data_round_trip [of 5 "''ab''"] by simp

text \<open>
  C9 as stated fails: the source has no check of \<open>count\<close>. A negative count
  makes \<^verbatim>\<open>range(count)\<close> empty and the remainder non-positive, and the call
  returns the empty list.
\<close>

theorem generate_sharded_data_negative_count_returns:
  "generate_sharded_data (- 2) ''abc'' = Inr []"
  by (simp add: generate_sharded_data_def py_range_def len_def Let_def)

text \<open>
  C9, amended. A count of zero fails, with the division error of \<^verbatim>\<open>divmod\<close>;
  a negative count does not fail: the split returns the empty list.
\<close>

theorem generate_sharded_data_nonpositive_count:
  "generate_sharded_data 0 text = Inl ZeroDivisionError
   \<and> (count < 0 \<longrightarrow> generate_sharded_data count text = Inr [])"
proof -
  have "\<not> 0 < len text mod count" if "count < 0"
    using neg_mod_sign [OF that, of "len text"] by simp
  then show ?thesis
    by (simp add: generate_sharded_data_def py_range_def Let_def)
qed

theorem generate_sharded_data_nonpositive_count_witness:
  "generate_sharded_data 0 ''abc'' = Inl ZeroDivisionError
   \<and> (- 1 :: int) < 0 \<and> generate_sharded_data (- 1) ''abc'' = Inr []"
  using generate_sharded_data_nonpositive_count [of "''abc''" "- 1"] by simp

section \<open>Synchronisation: claims C8, C2 and C7\<close>

text \<open>
  C8. Calling \<^verbatim>\<open>sync_replication()\<close> twice in a row changes nothing the second
  time: whenever a first call returns and leaves the handler \<open>s'\<close>, a second call
  on \<open>s'\<close> returns and leaves \<open>s'\<close> itself, with its mapping, its saved mapping
  and every primary and replica blob as they were. This holds from every handler,
  not only from those the operations can reach.
\<close>

theorem sync_replication_idempotent:
  "sync_replication s = Return () s' \<Longrightarrow> sync_replication s' = Return () s'"
  using sync_replication_synced synced_fixpoint by blast

theorem sync_replication_idempotent_witness:
  "sync_replication stale_replica_handler = Return () fresh_replica_handler
   \<and> sync_replication fresh_replica_handler = Return () fresh_replica_handler"
proof -
  have h: "sync_replication stale_replica_handler = Return () fresh_replica_handler"
    by code_simp
  show ?thesis using h sync_replication_idempotent [OF h] by simp
qed

text \<open>
  C2 as stated fails. The levels that \<^verbatim>\<open>update_replicated_levels\<close> reconciles
  are the levels named by the replica keys of the mapping, not the levels
  \<open>1..L\<close>. On a mapping whose only replica key is \<open>''0-2''\<close> the constructor
  computes \<open>L = 2\<close>, \<^verbatim>\<open>sync_replication()\<close> returns, and level 1 still has
  neither a mapping entry nor a blob.
\<close>

theorem sync_replication_leaves_level_gap:
  "init_handler (mapfile level_gap_handler) (data_dir level_gap_handler)
       (dir_order level_gap_handler) = Inr level_gap_handler
   \<and> sync_replication level_gap_handler = Return () level_gap_handler
   \<and> \<not> (\<forall>l \<in> {1..replication_level level_gap_handler}.
           \<forall>p \<in> set (get_shard_ids level_gap_handler). replica_matches level_gap_handler p l)"
proof -
  have a: "init_handler (mapfile level_gap_handler) (data_dir level_gap_handler)
             (dir_order level_gap_handler) = Inr level_gap_handler"
    by code_simp
  have b: "sync_replication level_gap_handler = Return () level_gap_handler"
    by code_simp
  have c: "(1::int) \<in> {1..replication_level level_gap_handler}"
    by (simp add: level_gap_handler_def)
  have d: "''0'' \<in> set (get_shard_ids level_gap_handler)"
    by code_simp
  have e: "\<not> replica_matches level_gap_handler ''0'' 1"
    by code_simp
  show ?thesis using a b c d e by blast
qed

text \<open>
  C2, amended. After any \<^verbatim>\<open>sync_replication()\<close> call that returns, every
  replica key of the mapping names a replication level, and at every level so
  named each primary shard has a replica whose mapping entry (start and end) and
  whose blob are there and equal the primary's.
\<close>

theorem sync_replication_replica_fidelity:
  assumes "sync_replication s = Return () s'"
    and "k \<in> set (get_replication_ids s')"
  shows "\<exists>l. int_part CHR ''-'' 1 k = Inr l
             \<and> (\<forall>p \<in> set (get_shard_ids s'). replica_matches s' p l)"
proof -
  have "reconciled s'"
    using sync_replication_synced [OF assms(1)] by (simp add: synced_def)
  then show ?thesis
    using assms(2) unfolding reconciled_def set_get_replication_ids by blast
qed

theorem sync_replication_replica_fidelity_witness:
  "sync_replication stale_replica_handler = Return () fresh_replica_handler
   \<and> ''0-1'' \<in> set (get_replication_ids fresh_replica_handler)
   \<and> (\<exists>l. int_part CHR ''-'' 1 ''0-1'' = Inr l
           \<and> (\<forall>p \<in> set (get_shard_ids fresh_replica_handler).
                 replica_matches fresh_replica_handler p l))"
proof -
  have h: "sync_replication stale_replica_handler = Return () fresh_replica_handler"
    by code_simp
  have k: "''0-1'' \<in> set (get_replication_ids fresh_replica_handler)"
    by code_simp
  show ?thesis using h k sync_replication_replica_fidelity [OF h k] by simp
qed

text \<open>
  C7 as stated fails. \<^verbatim>\<open>remove_shard()\<close> synchronises before it counts the
  shards, so on a one-shard handler whose replica is stale it raises the
  cannot-remove-last-shard error after the replica's entry and blob have been
  rewritten.
\<close>

theorem remove_shard_changes_stale_handler:
  "get_shard_ids stale_replica_handler = [''0'']
   \<and> remove_shard stale_replica_handler
       = Raise (Exception ''Cannot remove last shard'') fresh_replica_handler
   \<and> read_file ''0-1.txt'' stale_replica_handler = Inr ''ab''
   \<and> read_file ''0-1.txt'' fresh_replica_handler = Inr ''abc''"
  by code_simp

text \<open>
  C7, amended. When the \<^verbatim>\<open>sync_replication()\<close> at the start of
  \<^verbatim>\<open>remove_shard()\<close> returns and leaves exactly one primary shard, with an
  integer id and a readable blob, \<^verbatim>\<open>remove_shard()\<close> raises the
  cannot-remove-last-shard error and leaves the handler exactly as that
  synchronisation left it. When the \<^verbatim>\<open>sync_replication()\<close> at the start of
  \<^verbatim>\<open>remove_replication()\<close> returns and the replication level is 0,
  \<^verbatim>\<open>remove_replication()\<close> raises the nothing-to-remove error and leaves the
  handler exactly as that synchronisation left it. On a handler that is in sync
  already (\<open>s1 = s\<close>) nothing changes at all.
\<close>

theorem remove_rejected_after_sync:
  "(sync_replication s = Return () s1 \<and> get_shard_ids s1 = [key] \<and> py_int key = Inr n
      \<and> read_file (blob key) s1 = Inr c
      \<longrightarrow> remove_shard s = Raise (Exception ''Cannot remove last shard'') s1)
   \<and> (sync_replication s = Return () s1 \<and> replication_level s1 = 0
      \<longrightarrow> remove_replication s = Raise (Exception ''No replication levels to remove.'') s1)"
proof (intro conjI impI)
  assume a: "sync_replication s = Return () s1 \<and> get_shard_ids s1 = [key] \<and> py_int key = Inr n
      \<and> read_file (blob key) s1 = Inr c"
  then have "synced s1" using sync_replication_synced by blast
  then have mf: "mapfile s1 = Some (mapping s1)" by (simp add: synced_def reconciled_def)
  have same: "s1\<lparr>mapping := load_map s1\<rparr> = s1" by (simp add: load_map_def mf)
  have data: "load_data_from_shards s1 = Inr c"
    using a by (simp add: load_data_from_shards_def)
  show "remove_shard s = Raise (Exception ''Cannot remove last shard'') s1"
    using a by (simp add: remove_shard_def Let_def same data)
next
  assume "sync_replication s = Return () s1 \<and> replication_level s1 = 0"
  then show "remove_replication s = Raise (Exception ''No replication levels to remove.'') s1"
    by (simp add: remove_replication_def)
qed

theorem remove_rejected_after_sync_witness:
  "sync_replication fresh_replica_handler = Return () fresh_replica_handler
   \<and> get_shard_ids fresh_replica_handler = [''0''] \<and> py_int ''0'' = Inr 0
   \<and> read_file (blob ''0'') fresh_replica_handler = Inr ''abc''
   \<and> remove_shard fresh_replica_handler
       = Raise (Exception ''Cannot remove last shard'') fresh_replica_handler
   \<and> sync_replication two_shard_handler = Return () two_shard_handler
   \<and> replication_level two_shard_handler = 0
   \<and> remove_replication two_shard_handler
       = Raise (Exception ''No replication levels to remove.'') two_shard_handler"
proof -
  have a: "sync_replication fresh_replica_handler = Return () fresh_replica_handler"
    by code_simp
  have b: "get_shard_ids fresh_replica_handler = [''0'']" by code_simp
  have c: "py_int ''0'' = Inr 0" by code_simp
  have d: "read_file (blob ''0'') fresh_replica_handler = Inr ''abc''" by code_simp
  have e: "sync_replication two_shard_handler = Return () two_shard_handler"
    by code_simp
  have f: "replication_level two_shard_handler = 0" by (simp add: two_shard_handler_def)
  show ?thesis
    using a b c d e f
      remove_rejected_after_sync [of fresh_replica_handler fresh_replica_handler "''0''" 0 "''abc''"]
      remove_rejected_after_sync [of two_shard_handler two_shard_handler]
    by simp
qed

section \<open>Where the code departs from its own design: claims C1 and C3\<close>

text \<open>
  C1 fails at eleven primaries. \<^verbatim>\<open>get_shard_ids\<close> sorts the keys as strings, so
  \<open>''10''\<close> comes before \<open>''2''\<close>, and \<^verbatim>\<open>load_data_from_shards\<close> reads the blobs
  in that order. An eleven-character text built into ten shards reads back as it
  was; after \<^verbatim>\<open>add_shard()\<close> has returned, with eleven shards of one character
  each, reading all primaries gives the text with its last character moved to
  the third place.
\<close>

theorem add_shard_to_ten_scrambles_text:
  "build_shards 10 ''abcdefghijk'' empty_handler
     = Return None (handler_after (build_shards 10 ''abcdefghijk'' empty_handler))
   \<and> load_data_from_shards (handler_after (build_shards 10 ''abcdefghijk'' empty_handler))
     = Inr ''abcdefghijk''
   \<and> add_shard (handler_after (build_shards 10 ''abcdefghijk'' empty_handler))
     = Return () (handler_after
         (add_shard (handler_after (build_shards 10 ''abcdefghijk'' empty_handler))))
   \<and> take 4 (get_shard_ids (handler_after
         (add_shard (handler_after (build_shards 10 ''abcdefghijk'' empty_handler)))))
     = [''0'', ''1'', ''10'', ''2'']
   \<and> load_data_from_shards (handler_after
         (add_shard (handler_after (build_shards 10 ''abcdefghijk'' empty_handler))))
     = Inr ''abkcdefghij''"
  by code_simp

text \<open>
  C3 fails where the directory does not list the replica of the highest shard
  last. \<^verbatim>\<open>restore_primary_files\<close> copies \<^verbatim>\<open>other_files[-1]\<close>, the last replica
  blob of the listing, whatever its shard number. The handler of the example is
  what \<^verbatim>\<open>add_replication()\<close> leaves of the two-shard handler, less the blob
  \<open>1.txt\<close>. With the primary of shard 1
  lost and the listing \<open>0.txt, 1-1.txt, 0-1.txt\<close>, the new blob \<open>1.txt\<close> gets
  the content of \<open>0-1.txt\<close>, a replica of shard 0; the restoration then counts
  as done, and the synchronisation that follows copies the wrong content over
  the replica of shard 1 as well.
\<close>

theorem restore_primary_files_copies_last_listed:
  "add_replication two_shard_handler
     = Return () (lost_primary_handler\<lparr>data_dir :=
         Some [(''0.txt'', ''aa''), (''1.txt'', ''bb''), (''0-1.txt'', ''aa''),
               (''1-1.txt'', ''bb'')]\<rparr>)
   \<and> primary_files_okay lost_primary_handler = Inr False
   \<and> read_file ''1-1.txt'' lost_primary_handler = Inr ''bb''
   \<and> read_file ''0-1.txt'' lost_primary_handler = Inr ''aa''
   \<and> restore_primary_files lost_primary_handler
       = Return () (lost_primary_handler\<lparr>data_dir :=
           Some [(''0.txt'', ''aa''), (''1-1.txt'', ''bb''), (''0-1.txt'', ''aa''),
                 (''1.txt'', ''aa'')]\<rparr>)
   \<and> load_data_from_shards (handler_after (sync_replication lost_primary_handler))
       = Inr ''aaaa''"
  by code_simp

section \<open>The word lookup: claim C6\<close>

text \<open>
  C6 as stated fails. \<^verbatim>\<open>get_word_at_index\<close> has no \<^verbatim>\<open>raise\<close>: when no
  primary shard has the index in its range the \<^verbatim>\<open>for\<close> loop ends and the
  method returns \<^verbatim>\<open>None\<close>. Index 100 on a four-character text in two shards:
\<close>

theorem get_word_at_index_returns_none:
  "\<not> index_in_some_shard 100 two_shard_handler
   \<and> get_word_at_index 100 two_shard_handler = Inr None"
  by code_simp

text \<open>
  C6, amended. For every index that lies outside the range of every primary
  shard, \<^verbatim>\<open>get_word_at_index\<close> returns \<^verbatim>\<open>None\<close>: it reports neither an
  invalid index nor the valid shard ids. The one way it raises on such an index
  is the \<^verbatim>\<open>ValueError\<close> of \<^verbatim>\<open>max\<close> or \<^verbatim>\<open>int\<close> when there is no primary
  key or a primary key is not an integer.
\<close>

theorem get_word_at_index_outside_all_ranges:
  assumes "\<not> index_in_some_shard index s"
  shows "get_word_at_index index s
         = (if get_shard_ids s \<noteq> [] \<and> list_all (\<lambda>key. py_int key \<noteq> Inl ValueError) (get_shard_ids s)
            then Inr None else Inl ValueError)"
proof -
  let ?keys = "get_shard_ids s"
  have fw: "find_word ?keys largest_key index s = Inr None" for largest_key
  proof (rule find_word_no_range)
    fix key assume k: "key \<in> set ?keys"
    then obtain m where m: "map_of (mapping s) key = Some m" using key_in_mapping by blast
    have "\<not> (shard_start m \<le> index \<and> index \<le> shard_end m)"
      using assms k m by (auto simp: index_in_some_shard_def list_ex_iff)
    with m show "\<exists>m. map_of (mapping s) key = Some m
                  \<and> \<not> (shard_start m \<le> index \<and> index \<le> shard_end m)" by blast
  qed
  show ?thesis
  proof (cases "try_map py_int ?keys")
    case (Inl e)
    then obtain k where k: "k \<in> set ?keys" "py_int k = Inl e" using try_map_Inl by force
    then have e: "e = ValueError" using py_int_error by blast
    then have "\<not> list_all (\<lambda>key. py_int key \<noteq> Inl ValueError) ?keys"
      using k by (auto simp: list_all_iff)
    with Inl e show ?thesis by (simp add: get_word_at_index_def Let_def)
  next
    case (Inr numbers)
    have len: "length numbers = length ?keys" using try_map_Inr [OF Inr] by simp
    have all: "list_all (\<lambda>key. py_int key \<noteq> Inl ValueError) ?keys"
      unfolding list_all_iff
    proof
      fix k assume "k \<in> set ?keys"
      then obtain i where "i < length ?keys" "?keys ! i = k" by (auto simp: in_set_conv_nth)
      then show "py_int k \<noteq> Inl ValueError" using try_map_Inr [OF Inr] by auto
    qed
    show ?thesis
    proof (cases numbers)
      case Nil
      with len Inr show ?thesis by (simp add: get_word_at_index_def Let_def)
    next
      case (Cons n ns)
      then have "?keys \<noteq> []" using len by auto
      with Cons Inr all fw show ?thesis by (simp add: get_word_at_index_def Let_def)
    qed
  qed
qed

theorem get_word_at_index_outside_all_ranges_witness:
  "\<not> index_in_some_shard (- 1) two_shard_handler
   \<and> get_word_at_index (- 1) two_shard_handler = Inr None"
proof -
  have h: "\<not> index_in_some_shard (- 1) two_shard_handler" by code_simp
  have "get_shard_ids two_shard_handler \<noteq> []
        \<and> list_all (\<lambda>key. py_int key \<noteq> Inl ValueError) (get_shard_ids two_shard_handler)"
    by code_simp
  then show ?thesis using h get_word_at_index_outside_all_ranges [OF h] by simp
qed

section \<open>Recorded offsets: claim C10\<close>

text \<open>
  C10. For a shard set built by \<^verbatim>\<open>build_shards\<close> from a non-empty text with at
  least two shards (on a handler with an empty mapping, where \<^verbatim>\<open>build_shards\<close>
  does build): the build returns; the blobs hold the slices of the text; the
  recorded end of every shard is the total length of the contents of the shards
  up to and including it, which is one past the offset of its last character.
  Shard 0 starts at 0 and its end is the length of its content. So
  \<^verbatim>\<open>get_word_at_index\<close> called with that end as index is decided by shard 0,
  with a local offset (index minus start) that is the length of the content of
  shard 0, and there the lookup in the shard raises \<^verbatim>\<open>IndexError\<close> instead of
  returning a word. The text that the lookup reads from the blob is never longer
  than the content: reading in text mode turns a carriage return, together with
  the line feed after it when there is one, into a line feed.
\<close>

theorem build_shards_lookup_at_shard_end:
  assumes "mapping s = []" and "2 \<le> count" and "text \<noteq> []"
  shows "\<exists>s' ds. build_shards count text s = Return None s'
           \<and> len ds = count \<and> concat ds = text
           \<and> (\<forall>i < length ds. file_content (blob (shard_key i)) s' = Inr (ds ! i)
                  \<and> (\<exists>m. map_of (mapping s') (shard_key i) = Some m
                          \<and> shard_end m = len (concat (take (Suc i) ds))))
           \<and> (\<exists>m largest_key. map_of (mapping s') ''0'' = Some m
                  \<and> shard_start m = 0 \<and> shard_end m = len (ds ! 0)
                  \<and> get_word_at_index (shard_end m) s'
                      = then_e (word_in_shard ''0'' largest_key (shard_end m - shard_start m) s')
                          (\<lambda>r. Inr (Some r))
                  \<and> word_in_shard ''0'' largest_key (len (ds ! 0)) s' = Inl IndexError
                  \<and> get_word_at_index (shard_end m) s' = Inl IndexError)"
proof -
  have c1: "1 \<le> count" using assms(2) by simp
  obtain ds where g: "generate_sharded_data count text = Inr ds"
    and l: "len ds = count" and c: "concat ds = text"
    using c1 by (rule split_total)
  obtain t' where b: "build_shards count text s = Return None (write_map t')"
    and wr: "written ds 0 s t'"
    using assms(1) g by (rule build_shards_written)
  let ?s' = "write_map t'"
  have n: "0 < length ds" using l assms(2) by (auto simp: len_def)
  have each: "map_of (mapping ?s') (shard_key i) = Some (expected_meta ds i)
              \<and> file_content (blob (shard_key i)) ?s' = Inr (ds ! i)" if "i < length ds" for i
    using wr that by (simp add: written_def)
  have keys: "fst ` set (mapping ?s') = shard_key ` {0..<length ds}"
    using wr assms(1) by (simp add: written_def)
  have m0: "map_of (mapping ?s') ''0'' = Some (expected_meta ds 0)"
    and r0: "file_content (blob ''0'') ?s' = Inr (ds ! 0)"
    using each [OF n] by simp_all
  have e0: "shard_end (expected_meta ds 0) = len (ds ! 0)"
    and s0: "shard_start (expected_meta ds 0) = 0"
    using n by (simp_all add: expected_meta_def offset_before_Suc)
  obtain largest_key where
    lk: "get_word_at_index (shard_end (expected_meta ds 0)) ?s'
           = then_e (word_in_shard ''0'' largest_key
                       (shard_end (expected_meta ds 0) - shard_start (expected_meta ds 0)) ?s')
               (\<lambda>r. Inr (Some r))"
    and w: "word_in_shard ''0'' largest_key (len (ds ! 0)) ?s' = Inl IndexError"
    using lookup_at_end_of_shard_0 [OF keys n m0 s0 e0 r0] by blast
  have ie: "get_word_at_index (shard_end (expected_meta ds 0)) ?s' = Inl IndexError"
    using lk w e0 s0 by simp
  have "\<forall>i < length ds. file_content (blob (shard_key i)) ?s' = Inr (ds ! i)
                  \<and> (\<exists>m. map_of (mapping ?s') (shard_key i) = Some m
                          \<and> shard_end m = len (concat (take (Suc i) ds)))"
    using each by (simp add: expected_meta_def offset_before_def)
  then show ?thesis using b l c m0 e0 s0 lk w ie by blast
qed

text \<open>
  The text \<open>a\<close>, carriage return, line feed, \<open>b\<close> in two shards: shard 0 holds
  \<open>a\<close> and the carriage return and ends at 2.
\<close>

theorem build_shards_lookup_at_shard_end_witness:
  "mapping empty_handler = [] \<and> (2::int) \<le> 2 \<and> [CHR ''a'', CHR 0x0D, CHR 0x0A, CHR ''b''] \<noteq> []
   \<and> (\<exists>s' ds. build_shards 2 [CHR ''a'', CHR 0x0D, CHR 0x0A, CHR ''b''] empty_handler
                 = Return None s'
           \<and> len ds = 2 \<and> concat ds = [CHR ''a'', CHR 0x0D, CHR 0x0A, CHR ''b'']
           \<and> (\<forall>i < length ds. file_content (blob (shard_key i)) s' = Inr (ds ! i)
                  \<and> (\<exists>m. map_of (mapping s') (shard_key i) = Some m
                          \<and> shard_end m = len (concat (take (Suc i) ds))))
           \<and> (\<exists>m largest_key. map_of (mapping s') ''0'' = Some m
                  \<and> shard_start m = 0 \<and> shard_end m = len (ds ! 0)
                  \<and> get_word_at_index (shard_end m) s'
                      = then_e (word_in_shard ''0'' largest_key (shard_end m - shard_start m) s')
                          (\<lambda>r. Inr (Some r))
                  \<and> word_in_shard ''0'' largest_key (len (ds ! 0)) s' = Inl IndexError
                  \<and> get_word_at_index (shard_end m) s' = Inl IndexError))"
proof -
  have a: "mapping empty_handler = []" by (simp add: empty_handler_def)
  have b: "(2::int) \<le> 2" by simp
  have c: "[CHR ''a'', CHR 0x0D, CHR 0x0A, CHR ''b''] \<noteq> []" by simp
  show ?thesis
    using a b c build_shards_lookup_at_shard_end [OF a b c] by simp
qed

section \<open>Recorded offsets: claim C5\<close>

text \<open>
  C5 as stated fails. \<^verbatim>\<open>_write_shard_mapping\<close> starts a shard one after the
  running offset unless that offset is 0, in which case it starts the shard at
  0. When the count exceeds the length of the text the leading slices are empty,
  the offset is still 0 after them, and the next shard starts at 0 again, not at
  the end of its predecessor plus one. The text \<open>''ab''\<close> in three shards:
\<close>

theorem build_shards_empty_slices_restart_at_0:
  "build_shards 3 ''ab'' empty_handler
     = Return None (handler_after (build_shards 3 ''ab'' empty_handler))
   \<and> map_of (mapping (handler_after (build_shards 3 ''ab'' empty_handler))) ''0''
     = Some \<lparr>shard_start = 0, shard_end = 0\<rparr>
   \<and> map_of (mapping (handler_after (build_shards 3 ''ab'' empty_handler))) ''1''
     = Some \<lparr>shard_start = 0, shard_end = 0\<rparr>
   \<and> map_of (mapping (handler_after (build_shards 3 ''ab'' empty_handler))) ''2''
     = Some \<lparr>shard_start = 0, shard_end = 2\<rparr>"
  by code_simp

text \<open>
  C5, amended. After every completed operation the recorded offsets of the
  primary shards are chained: shard 0 starts at 0, and for every adjacent pair
  of primary shard ids \<open>i\<close>, \<open>i + 1\<close> the start of shard \<open>i + 1\<close> is the end of
  shard \<open>i\<close> plus one, except that it is 0 when the end of shard \<open>i\<close> is 0.
  \<^verbatim>\<open>build_shards\<close> (when it builds), \<^verbatim>\<open>add_shard\<close> and \<^verbatim>\<open>remove_shard\<close>
  establish this from any handler; \<^verbatim>\<open>build_shards\<close> (when it only returns
  its advisory), \<^verbatim>\<open>sync_replication\<close>, \<^verbatim>\<open>add_replication\<close> and
  \<^verbatim>\<open>remove_replication\<close> keep it.
\<close>

theorem offsets_chained_after_operations:
  "(build_shards count text s = Return None s' \<longrightarrow> offsets_chained s')
   \<and> (add_shard s = Return () s' \<longrightarrow> offsets_chained s')
   \<and> (remove_shard s = Return () s' \<longrightarrow> offsets_chained s')
   \<and> (offsets_chained s
        \<and> (build_shards count text s = Return (Some msg) s'
             \<or> sync_replication s = Return () s'
             \<or> add_replication s = Return () s'
             \<or> remove_replication s = Return () s')
      \<longrightarrow> offsets_chained s')"
proof (intro conjI impI)
  assume "build_shards count text s = Return None s'"
  then show "offsets_chained s'" by (rule build_shards_offsets_chained)
next
  assume "add_shard s = Return () s'"
  then show "offsets_chained s'" by (rule add_shard_offsets_chained)
next
  assume "remove_shard s = Return () s'"
  then show "offsets_chained s'" by (rule remove_shard_offsets_chained)
next
  assume a: "offsets_chained s
        \<and> (build_shards count text s = Return (Some msg) s'
             \<or> sync_replication s = Return () s'
             \<or> add_replication s = Return () s'
             \<or> remove_replication s = Return () s')"
  then have "same_entries s s'"
  proof (elim conjE disjE)
    assume "build_shards count text s = Return (Some msg) s'"
    then have "s' = s"
      by (auto simp: build_shards_def and_then_Return_iff lift_Return_iff split: if_splits)
    then show ?thesis by simp
  next
    assume "sync_replication s = Return () s'"
    then show ?thesis by (rule sync_replication_same_entries)
  next
    assume "add_replication s = Return () s'"
    then show ?thesis by (rule add_replication_same_entries)
  next
    assume "remove_replication s = Return () s'"
    then show ?thesis by (rule remove_replication_same_entries)
  qed
  then show "offsets_chained s'" using a same_entries_offsets_chained by blast
qed

theorem offsets_chained_after_operations_witness:
  "build_shards 2 ''aabb'' empty_handler = Return None two_shard_handler
   \<and> offsets_chained two_shard_handler
   \<and> add_shard two_shard_handler = Return () (handler_after (add_shard two_shard_handler))
   \<and> offsets_chained (handler_after (add_shard two_shard_handler))
   \<and> remove_shard two_shard_handler = Return () (handler_after (remove_shard two_shard_handler))
   \<and> offsets_chained (handler_after (remove_shard two_shard_handler))
   \<and> add_replication two_shard_handler
       = Return () (handler_after (add_replication two_shard_handler))
   \<and> offsets_chained (handler_after (add_replication two_shard_handler))"
proof -
  have a: "build_shards 2 ''aabb'' empty_handler = Return None two_shard_handler"
    by code_simp
  have b: "add_shard two_shard_handler = Return () (handler_after (add_shard two_shard_handler))"
    by code_simp
  have c: "remove_shard two_shard_handler
           = Return () (handler_after (remove_shard two_shard_handler))"
    by code_simp
  have d: "add_replication two_shard_handler
           = Return () (handler_after (add_replication two_shard_handler))"
    by code_simp
  have e: "offsets_chained two_shard_handler"
    using a offsets_chained_after_operations [of 2 "''aabb''" empty_handler two_shard_handler]
    by simp
  show ?thesis
    using a b c d e
      offsets_chained_after_operations
        [of 2 "''aabb''" two_shard_handler "handler_after (add_shard two_shard_handler)"]
      offsets_chained_after_operations
        [of 2 "''aabb''" two_shard_handler "handler_after (remove_shard two_shard_handler)"]
      offsets_chained_after_operations
        [of 2 "''aabb''" two_shard_handler "handler_after (add_replication two_shard_handler)"]
    by simp
qed

end
